theory Spec2Isabelle
  imports Main "HOL-Library.Word" "HOL-Library.Sublist"
begin

section \<open>Bytes, errors and the byte source\<close>

text \<open>
  A Go \<open>byte\<close> is an 8-bit word; a \<open>[]byte\<close> and a Go string are byte lists.  A string
  literal of the source is written \<open>bytes ''...''\<close>.  Go's \<open>int\<close> is taken at its 64-bit
  width: sizes are sums of at most 255 bytes and never overflow, so they are modelled as
  \<open>int\<close>; the only place where the width shows is \<open>strconv.Atoi\<close>, whose range check is
  written out.
\<close>

type_synonym byte = "8 word"

definition bytes :: "string \<Rightarrow> byte list" where
  "bytes s = map of_char s"

text \<open>
  The error values the two files can produce: the two sentinel errors of \<open>io.ReadFull\<close>,
  the \<open>fmt.Errorf\<close> values of \<open>skip\<close> (oggloop.go), \<open>Skip\<close> and \<open>ReadBytes\<close>
  (the error-latching file), and the two causes of a \<open>strconv.NumError\<close>.
\<close>

datatype error =
    EOF
  | ErrUnexpectedEOF
  | ErrSkipByte int
  | ErrSkipBytes int
  | ErrReadBytes int
  | ErrSyntax
  | ErrRange

text \<open>
  A panic is either the run-time panic of \<open>make([]byte, n)\<close> with a negative \<open>n\<close>
  (``makeslice: len out of range'') or the explicit \<open>panic(err)\<close> after \<open>strconv.Atoi\<close>.
\<close>

datatype panic = MakesliceLenOutOfRange | PanicError error

datatype 'a run = Panic panic | Fail error | Ok 'a

text \<open>What \<open>Read\<close> hands to its caller: the three results, or a panic.\<close>

datatype result = Return int int "error option" | Panicked panic

text \<open>
  The byte source is a finite byte sequence read front to back (a \<open>bytes.Reader\<close>, a file):
  the list is what is still unread.  \<open>io.ReadFull(src, buf)\<close> with \<open>len(buf) = n\<close> fills the
  buffer as far as the source goes and leaves the rest zero; it returns \<open>io.EOF\<close> when
  nothing at all could be read, \<open>io.ErrUnexpectedEOF\<close> when the source ended inside the
  buffer, and no error, without touching the source, for \<open>n = 0\<close>.  The model returns the
  buffer, the error and the source after the call.
\<close>

definition ReadFull :: "byte list \<Rightarrow> nat \<Rightarrow> byte list \<times> error option \<times> byte list" where
  "ReadFull src n =
     (take n src @ replicate (n - length src) 0,
      (if n \<le> length src then None else if src = [] then Some EOF else Some ErrUnexpectedEOF),
      drop n src)"

section \<open>Tag patterns and integer parsing\<close>

definition is_digit :: "byte \<Rightarrow> bool" where
  "is_digit c \<longleftrightarrow> 0x30 \<le> c \<and> c \<le> 0x39"

text \<open>
  \<open>regexp.MustCompile(`KEY([0-9]+)`).FindSubmatch(text)\<close> for a literal \<open>KEY\<close>: the leftmost
  position where the literal is followed by a digit, the digit run taken greedily.  The
  result is the slice of submatches: empty (nil) when nothing matches, otherwise the whole
  match and the captured digits.  The pattern and the digits are ASCII, so matching on the
  bytes is matching on the text.
\<close>

fun FindSubmatch :: "byte list \<Rightarrow> byte list \<Rightarrow> byte list list" where
  "FindSubmatch key [] = []"
| "FindSubmatch key (c # cs) =
     (let ds = takeWhile is_digit (drop (length key) (c # cs))
      in if prefix key (c # cs) \<and> ds \<noteq> [] then [key @ ds, ds] else FindSubmatch key cs)"

definition loopStartRe :: "byte list" where
  "loopStartRe = bytes ''LOOPSTART=''"

definition loopLengthRe :: "byte list" where
  "loopLengthRe = bytes ''LOOPLENGTH=''"

text \<open>
  The digit loop of \<open>strconv.ParseUint(s, 10, 64)\<close>: a byte that is not a digit is a syntax
  error, a value that leaves 64 bits is a range error, whichever comes first.
\<close>

fun parse_digits :: "nat \<Rightarrow> byte list \<Rightarrow> error + nat" where
  "parse_digits n [] = Inr n"
| "parse_digits n (c # cs) =
     (if \<not> is_digit c then Inl ErrSyntax
      else let n' = 10 * n + unat (c - 0x30)
           in if 2 ^ 64 \<le> n' then Inl ErrRange else parse_digits n' cs)"

text \<open>
  \<open>strconv.Atoi\<close> for a 64-bit \<open>int\<close>: an optional sign, at least one digit, and the value
  within \<open>-2^63 .. 2^63 - 1\<close>.
\<close>

definition Atoi :: "byte list \<Rightarrow> error + int" where
  "Atoi s =
     (let neg = (s \<noteq> [] \<and> hd s = 0x2D);
          ds = (if s \<noteq> [] \<and> (hd s = 0x2B \<or> hd s = 0x2D) then tl s else s)
      in if ds = [] then Inl ErrSyntax
         else case parse_digits 0 ds of
                Inl e \<Rightarrow> Inl e
              | Inr un \<Rightarrow>
                  if \<not> neg \<and> 2 ^ 63 \<le> un then Inl ErrRange
                  else if neg \<and> 2 ^ 63 < un then Inl ErrRange
                  else Inr (if neg then - int un else int un))"

section \<open>oggloop.go: errors returned at once\<close>

definition skip :: "byte list \<Rightarrow> int \<Rightarrow> error option \<times> byte list" where
  "skip src n =
     (if n = 0 then (None, src)
      else if n < 0 then (Some (ErrSkipByte n), src)
      else case ReadFull src (nat n) of (_, e, src') \<Rightarrow> (e, src'))"

definition readByte :: "byte list \<Rightarrow> byte \<times> error option \<times> byte list" where
  "readByte src =
     (case ReadFull src 1 of
        (b, Some e, src') \<Rightarrow> (0, Some e, src')
      | (b, None, src') \<Rightarrow> (b ! 0, None, src'))"

text \<open>
  The inner loop of lines 105 to 111: from index \<open>i\<close> add up the table entries, stopping
  at (and including) the first entry below 255, or at the end of the table.  It returns
  the size and the index where the loop stopped.
\<close>

function size_loop :: "byte list \<Rightarrow> nat \<Rightarrow> int \<Rightarrow> int \<times> nat" where
  "size_loop segs i sz =
     (if i < length segs
      then (if segs ! i < 255 then (sz + uint (segs ! i), i)
            else size_loop segs (Suc i) (sz + uint (segs ! i)))
      else (sz, i))"
  by pat_completeness auto
termination
  by (relation "measure (\<lambda>(segs, i, sz). length segs - i)") auto

declare size_loop.simps [simp del]

lemma size_loop_index_ge: "i \<le> snd (size_loop segs i sz)"
proof (induction segs i sz rule: size_loop.induct)
  case (1 segs i sz)
  show ?case
  proof (cases "i < length segs \<and> \<not> segs ! i < 255")
    case True
    with 1 have "Suc i \<le> snd (size_loop segs (Suc i) (sz + uint (segs ! i)))"
      by simp
    with True show ?thesis
      by (subst size_loop.simps) simp
  next
    case False
    then show ?thesis
      by (subst size_loop.simps) auto
  qed
qed

text \<open>
  Lines 117 to 130, once for each pattern: a match replaces the value by the parsed
  digits, a failed parse panics, no match keeps the value.
\<close>

definition set_from_tag :: "byte list \<Rightarrow> byte list \<Rightarrow> int \<Rightarrow> int run" where
  "set_from_tag re meta old =
     (let m = FindSubmatch re meta
      in if length m > 1
         then (case Atoi (m ! 1) of Inl err \<Rightarrow> Panic (PanicError err) | Inr n \<Rightarrow> Ok n)
         else Ok old)"

text \<open>
  The loop over the segment table, lines 78 to 132.  The state is the index, the flag
  \<open>headerFound\<close>, the two named results and the source.
\<close>

function seg_loop ::
  "byte list \<Rightarrow> nat \<Rightarrow> bool \<Rightarrow> int \<Rightarrow> int \<Rightarrow> byte list \<Rightarrow> (bool \<times> int \<times> int \<times> byte list) run"
where
  "seg_loop segs i headerFound loopStart loopLength src =
     (if \<not> i < length segs then Ok (headerFound, loopStart, loopLength, src)
      else case readByte src of
        (_, Some err, _) \<Rightarrow> Fail err
      | (headerType, None, src1) \<Rightarrow>
      (case ReadFull src1 4 of
        (_, Some err, _) \<Rightarrow> Fail err
      | (b, None, src2) \<Rightarrow>
          if b \<noteq> bytes ''vorb'' then
            (case skip src2 (uint (segs ! i) - 5) of
               (Some err, _) \<Rightarrow> Fail err
             | (None, src3) \<Rightarrow> seg_loop segs (Suc i) headerFound loopStart loopLength src3)
          else if headerType \<noteq> 3 then
            (case skip src2 (uint (segs ! i) - 5) of
               (Some err, _) \<Rightarrow> Fail err
             | (None, src3) \<Rightarrow> seg_loop segs (Suc i) True loopStart loopLength src3)
          else
            (let sz = fst (size_loop segs i 0) - 5;
                 i' = snd (size_loop segs i 0)
             in if sz < 0 then Panic MakesliceLenOutOfRange
                else case ReadFull src2 (nat sz) of
                  (_, Some err, _) \<Rightarrow> Fail err
                | (meta, None, src3) \<Rightarrow>
                (case set_from_tag loopStartRe meta loopStart of
                   Panic p \<Rightarrow> Panic p
                 | Fail err \<Rightarrow> Fail err
                 | Ok loopStart' \<Rightarrow>
                (case set_from_tag loopLengthRe meta loopLength of
                   Panic p \<Rightarrow> Panic p
                 | Fail err \<Rightarrow> Fail err
                 | Ok loopLength' \<Rightarrow>
                     seg_loop segs (Suc i') True loopStart' loopLength' src3)))))"
  by pat_completeness auto
termination
proof (relation "measure (\<lambda>(segs, i, hf, ls, ll, src). length segs - i)", goal_cases)
  case 1
  show ?case by simp
next
  case 2
  then show ?case by simp
next
  case 3
  then show ?case by simp
next
  case (4 segs i headerFound loopStart loopLength src)
  have "i \<le> snd (size_loop segs i 0)"
    by (rule size_loop_index_ge)
  with 4 show ?case by simp
qed

declare seg_loop.simps [simp del]

lemma ReadFull_length: "ReadFull src n = (b, e, src') \<Longrightarrow> length src' \<le> length src"
  by (auto simp: ReadFull_def)

lemma ReadFull_ok_length:
  "ReadFull src n = (b, None, src') \<Longrightarrow> length src' + n = length src"
  by (auto simp: ReadFull_def split: if_splits)

lemma skip_length: "skip src n = (e, src') \<Longrightarrow> length src' \<le> length src"
  by (auto simp: skip_def split: if_splits prod.splits dest: ReadFull_length)

lemma readByte_length: "readByte src = (b, e, src') \<Longrightarrow> length src' \<le> length src"
  by (auto simp: readByte_def split: prod.splits option.splits dest: ReadFull_length)

lemma seg_loop_length:
  "seg_loop segs i hf ls ll src = Ok (hf', ls', ll', src') \<Longrightarrow> length src' \<le> length src"
proof (induction "length segs - i" arbitrary: i hf ls ll src rule: less_induct)
  case less
  show ?case
  proof (cases "i < length segs")
    case False
    with less.prems show ?thesis
      by (simp add: seg_loop.simps)
  next
    case True
    have IH: "length src' \<le> length s"
      if "i < j" and "seg_loop segs j h a b s = Ok (hf', ls', ll', src')" for j h a b s
      using less.hyps [of j h a b s] that True by simp
    have idx: "i < Suc (snd (size_loop segs i 0))"
      using size_loop_index_ge [of i segs 0] by simp
    obtain t src1 where 1: "readByte src = (t, None, src1)"
      using less.prems True
      by (subst (asm) seg_loop.simps) (auto split: prod.splits option.splits)
    obtain b src2 where 2: "ReadFull src1 4 = (b, None, src2)"
      using less.prems True 1
      by (subst (asm) seg_loop.simps) (auto split: prod.splits option.splits)
    have l2: "length src2 \<le> length src"
      using readByte_length [OF 1] ReadFull_length [OF 2] by simp
    show ?thesis
    proof (cases "b \<noteq> bytes ''vorb'' \<or> t \<noteq> 3")
      case other: True
      then obtain src3 h where 3: "skip src2 (uint (segs ! i) - 5) = (None, src3)"
        and 4: "seg_loop segs (Suc i) h ls ll src3 = Ok (hf', ls', ll', src')"
        using less.prems True 1 2
        by (subst (asm) seg_loop.simps) (auto split: prod.splits option.splits if_splits)
      from IH [OF _ 4] skip_length [OF 3] l2 show ?thesis by simp
    next
      case comment: False
      then obtain meta a c src3 where
        3: "ReadFull src2 (nat (fst (size_loop segs i 0) - 5)) = (meta, None, src3)"
        and 4: "seg_loop segs (Suc (snd (size_loop segs i 0))) True a c src3 = Ok (hf', ls', ll', src')"
        using less.prems True 1 2
        by (subst (asm) seg_loop.simps)
           (auto split: prod.splits option.splits if_splits run.splits simp: Let_def)
      from IH [OF idx 4] ReadFull_length [OF 3] l2 show ?thesis by simp
    qed
  qed
qed

text \<open>
  One page after its capture pattern, lines 64 to 132: the rest of the fixed header is
  skipped, the segment count and the segment table are read, and the table is walked.
\<close>

definition read_page :: "int \<Rightarrow> int \<Rightarrow> byte list \<Rightarrow> (bool \<times> int \<times> int \<times> byte list) run" where
  "read_page loopStart loopLength src =
     (case skip src (26 - 4) of
        (Some err, _) \<Rightarrow> Fail err
      | (None, src1) \<Rightarrow>
      (case readByte src1 of
        (_, Some err, _) \<Rightarrow> Fail err
      | (nseg, None, src2) \<Rightarrow>
      (case ReadFull src2 (unat nseg) of
        (_, Some err, _) \<Rightarrow> Fail err
      | (segs, None, src3) \<Rightarrow> seg_loop segs 0 False loopStart loopLength src3)))"

lemma read_page_length:
  "read_page ls ll src = Ok (hf', ls', ll', src') \<Longrightarrow> length src' \<le> length src"
  unfolding read_page_def
  by (auto split: prod.splits option.splits
      dest!: skip_length readByte_length ReadFull_length seg_loop_length)

text \<open>
  The loop over the pages, lines 55 to 137.  Every error return sets the two values to
  zero; the two \<open>break\<close>s fall through to the bare \<open>return\<close> of the named results.
\<close>

function Read_loop :: "int \<Rightarrow> int \<Rightarrow> byte list \<Rightarrow> result" where
  "Read_loop loopStart loopLength src =
     (case ReadFull src 4 of
        (_, Some err, _) \<Rightarrow> Return 0 0 (Some err)
      | (b, None, src1) \<Rightarrow>
          if b \<noteq> bytes ''OggS'' then Return loopStart loopLength None
          else case read_page loopStart loopLength src1 of
                 Panic p \<Rightarrow> Panicked p
               | Fail err \<Rightarrow> Return 0 0 (Some err)
               | Ok (headerFound, loopStart', loopLength', src2) \<Rightarrow>
                   if \<not> headerFound then Return loopStart' loopLength' None
                   else Read_loop loopStart' loopLength' src2)"
  by pat_completeness auto
termination
proof (relation "measure (\<lambda>(ls, ll, src). length src)", goal_cases)
  case 1
  show ?case by simp
next
  case 2
  then show ?case
    by (auto dest!: ReadFull_ok_length [OF sym] read_page_length)
qed

declare Read_loop.simps [simp del]

definition Read :: "byte list \<Rightarrow> result" where
  "Read src = Read_loop 0 0 src"


section \<open>The error-latching file: errors kept in the reader\<close>

text \<open>
  \<open>errReader\<close> wraps the source and remembers the first error; the fields are \<open>r\<close> and
  \<open>err\<close> in the source.
\<close>

record errReader =
  rd_r :: "byte list"
  rd_err :: "error option"

text \<open>
  \<open>ReadBytes\<close> allocates its buffer first, so a negative \<open>n\<close> panics in \<open>make\<close> before
  any of the checks is reached; the check for a negative \<open>n\<close> is kept where the source
  has it.  A failed read leaves in the buffer what was read before the source ended.
\<close>

definition ReadBytes :: "errReader \<Rightarrow> int \<Rightarrow> panic + byte list \<times> errReader" where
  "ReadBytes rd n =
     (if n < 0 then Inl MakesliceLenOutOfRange
      else let buf = replicate (nat n) 0
           in if rd_err rd \<noteq> None then Inr (buf, rd)
              else if n = 0 then Inr (buf, rd)
              else if n < 0 then Inr (buf, rd\<lparr>rd_err := Some (ErrReadBytes n)\<rparr>)
              else case ReadFull (rd_r rd) (nat n) of
                     (buf', e, src') \<Rightarrow> Inr (buf', rd\<lparr>rd_r := src', rd_err := e\<rparr>))"

definition ReadByte :: "errReader \<Rightarrow> panic + byte \<times> errReader" where
  "ReadByte rd =
     (case ReadBytes rd 1 of Inl p \<Rightarrow> Inl p | Inr (buf, rd') \<Rightarrow> Inr (buf ! 0, rd'))"

definition Skip :: "errReader \<Rightarrow> int \<Rightarrow> panic + errReader" where
  "Skip rd n =
     (if rd_err rd \<noteq> None then Inr rd
      else if n = 0 then Inr rd
      else if n < 0 then Inr (rd\<lparr>rd_err := Some (ErrSkipBytes n)\<rparr>)
      else case ReadBytes rd n of Inl p \<Rightarrow> Inl p | Inr (_, rd') \<Rightarrow> Inr rd')"

definition mustAtoi :: "byte list \<Rightarrow> panic + int" where
  "mustAtoi str = (case Atoi str of Inl err \<Rightarrow> Inl (PanicError err) | Inr n \<Rightarrow> Inr n)"

text \<open>Lines 125 to 130, once for each pattern.\<close>

definition set_from_tag_l :: "byte list \<Rightarrow> byte list \<Rightarrow> int \<Rightarrow> panic + int" where
  "set_from_tag_l re meta old =
     (let m = FindSubmatch re meta
      in if length m > 1 then mustAtoi (m ! 1) else Inr old)"

text \<open>
  The measure of the loops: a reader with a latched error reads nothing more; otherwise
  what is left of the source counts.
\<close>

definition weight :: "errReader \<Rightarrow> nat" where
  "weight rd = (if rd_err rd = None then Suc (length (rd_r rd)) else 0)"

lemma ReadBytes_weight: "ReadBytes rd n = Inr (buf, rd') \<Longrightarrow> weight rd' \<le> weight rd"
  by (auto simp: ReadBytes_def weight_def Let_def ReadFull_def split: if_splits)

lemma ReadByte_weight: "ReadByte rd = Inr (b, rd') \<Longrightarrow> weight rd' \<le> weight rd"
  by (auto simp: ReadByte_def split: sum.splits dest: ReadBytes_weight)

lemma Skip_weight: "Skip rd n = Inr rd' \<Longrightarrow> weight rd' \<le> weight rd"
  by (auto simp: Skip_def weight_def split: sum.splits if_splits dest: ReadBytes_weight)

lemma bytes_OggS: "bytes ''OggS'' = [0x4F, 0x67, 0x67, 0x53]"
  by (simp add: bytes_def)

lemma bytes_vorb: "bytes ''vorb'' = [0x76, 0x6F, 0x72, 0x62]"
  by (simp add: bytes_def)

lemma zeros_neq_OggS: "replicate n (0::byte) \<noteq> bytes ''OggS''"
proof
  assume "replicate n (0::byte) = bytes ''OggS''"
  then have "(0x4F::byte) \<in> set (replicate n 0)"
    by (simp add: bytes_OggS)
  then show False by simp
qed

lemma zeros_neq_vorb: "replicate n (0::byte) \<noteq> bytes ''vorb''"
proof
  assume "replicate n (0::byte) = bytes ''vorb''"
  then have "(0x76::byte) \<in> set (replicate n 0)"
    by (simp add: bytes_vorb)
  then show False by simp
qed

lemma ReadBytes_OggS_weight:
  assumes "ReadBytes rd 4 = Inr (bytes ''OggS'', rd')"
  shows "weight rd' < weight rd"
proof (cases "rd_err rd = None")
  case False
  with assms show ?thesis
    by (auto simp: ReadBytes_def Let_def zeros_neq_OggS)
next
  case True
  with assms show ?thesis
    by (auto simp: ReadBytes_def weight_def Let_def ReadFull_def split: if_splits)
qed

text \<open>The loop over the segment table, lines 99 to 132.\<close>

function seg_loop_l ::
  "byte list \<Rightarrow> nat \<Rightarrow> bool \<Rightarrow> int \<Rightarrow> int \<Rightarrow> errReader \<Rightarrow> panic + bool \<times> int \<times> int \<times> errReader"
where
  "seg_loop_l segs i headerFound loopStart loopLength rd =
     (if \<not> i < length segs then Inr (headerFound, loopStart, loopLength, rd)
      else case ReadByte rd of
        Inl p \<Rightarrow> Inl p
      | Inr (headerType, rd1) \<Rightarrow>
      (case ReadBytes rd1 4 of
        Inl p \<Rightarrow> Inl p
      | Inr (b, rd2) \<Rightarrow>
          if b \<noteq> bytes ''vorb'' then
            (case Skip rd2 (uint (segs ! i) - 5) of
               Inl p \<Rightarrow> Inl p
             | Inr rd3 \<Rightarrow> seg_loop_l segs (Suc i) headerFound loopStart loopLength rd3)
          else if headerType \<noteq> 3 then
            (case Skip rd2 (uint (segs ! i) - 5) of
               Inl p \<Rightarrow> Inl p
             | Inr rd3 \<Rightarrow> seg_loop_l segs (Suc i) True loopStart loopLength rd3)
          else
            (let sz = fst (size_loop segs i 0) - 5;
                 i' = snd (size_loop segs i 0)
             in case ReadBytes rd2 sz of
                  Inl p \<Rightarrow> Inl p
                | Inr (meta, rd3) \<Rightarrow>
                (case set_from_tag_l loopStartRe meta loopStart of
                   Inl p \<Rightarrow> Inl p
                 | Inr loopStart' \<Rightarrow>
                (case set_from_tag_l loopLengthRe meta loopLength of
                   Inl p \<Rightarrow> Inl p
                 | Inr loopLength' \<Rightarrow>
                     seg_loop_l segs (Suc i') True loopStart' loopLength' rd3)))))"
  by pat_completeness auto
termination
proof (relation "measure (\<lambda>(segs, i, hf, ls, ll, rd). length segs - i)", goal_cases)
  case 1
  show ?case by simp
next
  case 2
  then show ?case by simp
next
  case 3
  then show ?case by simp
next
  case (4 segs i headerFound loopStart loopLength rd)
  have "i \<le> snd (size_loop segs i 0)"
    by (rule size_loop_index_ge)
  with 4 show ?case by simp
qed

declare seg_loop_l.simps [simp del]


lemma seg_loop_l_weight:
  "seg_loop_l segs i hf ls ll rd = Inr (hf', ls', ll', rd') \<Longrightarrow> weight rd' \<le> weight rd"
proof (induction "length segs - i" arbitrary: i hf ls ll rd rule: less_induct)
  case less
  show ?case
  proof (cases "i < length segs")
    case False
    with less.prems show ?thesis
      by (simp add: seg_loop_l.simps)
  next
    case True
    have IH: "weight rd' \<le> weight s"
      if "i < j" and "seg_loop_l segs j h a b s = Inr (hf', ls', ll', rd')" for j h a b s
      using less.hyps [of j h a b s] that True by simp
    have idx: "i < Suc (snd (size_loop segs i 0))"
      using size_loop_index_ge [of i segs 0] by simp
    obtain headerType rd1 where 1: "ReadByte rd = Inr (headerType, rd1)"
      using less.prems True
      by (subst (asm) seg_loop_l.simps) (auto split: sum.splits)
    obtain b rd2 where 2: "ReadBytes rd1 4 = Inr (b, rd2)"
      using less.prems True 1
      by (subst (asm) seg_loop_l.simps) (auto split: sum.splits)
    have w2: "weight rd2 \<le> weight rd"
      using ReadByte_weight [OF 1] ReadBytes_weight [OF 2] by simp
    show ?thesis
    proof (cases "b \<noteq> bytes ''vorb'' \<or> headerType \<noteq> 3")
      case other: True
      then obtain rd3 h where 3: "Skip rd2 (uint (segs ! i) - 5) = Inr rd3"
        and 4: "seg_loop_l segs (Suc i) h ls ll rd3 = Inr (hf', ls', ll', rd')"
        using less.prems True 1 2
        by (subst (asm) seg_loop_l.simps) (auto split: sum.splits if_splits)
      from IH [OF _ 4] Skip_weight [OF 3] w2 show ?thesis by simp
    next
      case comment: False
      then obtain meta rd3 a c where 3: "ReadBytes rd2 (fst (size_loop segs i 0) - 5) = Inr (meta, rd3)"
        and 4: "seg_loop_l segs (Suc (snd (size_loop segs i 0))) True a c rd3 = Inr (hf', ls', ll', rd')"
        using less.prems True 1 2
        by (subst (asm) seg_loop_l.simps) (auto split: sum.splits if_splits simp: Let_def)
      from IH [OF idx 4] ReadBytes_weight [OF 3] w2 show ?thesis by simp
    qed
  qed
qed

text \<open>One page after its capture pattern, lines 94 to 132.\<close>

definition read_page_l ::
  "int \<Rightarrow> int \<Rightarrow> errReader \<Rightarrow> panic + bool \<times> int \<times> int \<times> errReader" where
  "read_page_l loopStart loopLength rd =
     (case Skip rd (26 - 4) of
        Inl p \<Rightarrow> Inl p
      | Inr rd1 \<Rightarrow>
      (case ReadByte rd1 of
        Inl p \<Rightarrow> Inl p
      | Inr (nseg, rd2) \<Rightarrow>
      (case ReadBytes rd2 (uint nseg) of
        Inl p \<Rightarrow> Inl p
      | Inr (segs, rd3) \<Rightarrow> seg_loop_l segs 0 False loopStart loopLength rd3)))"

lemma read_page_l_weight:
  "read_page_l ls ll rd = Inr (hf', ls', ll', rd') \<Longrightarrow> weight rd' \<le> weight rd"
  unfolding read_page_l_def
  by (auto split: sum.splits
      dest!: Skip_weight ReadByte_weight ReadBytes_weight seg_loop_l_weight)

text \<open>
  The loop over the pages, lines 90 to 137.  Both \<open>break\<close>s leave the loop with the named
  results as they are.
\<close>

function Read_loop_l :: "int \<Rightarrow> int \<Rightarrow> errReader \<Rightarrow> panic + int \<times> int \<times> errReader" where
  "Read_loop_l loopStart loopLength rd =
     (case ReadBytes rd 4 of
        Inl p \<Rightarrow> Inl p
      | Inr (b, rd1) \<Rightarrow>
          if b \<noteq> bytes ''OggS'' then Inr (loopStart, loopLength, rd1)
          else case read_page_l loopStart loopLength rd1 of
                 Inl p \<Rightarrow> Inl p
               | Inr (headerFound, loopStart', loopLength', rd2) \<Rightarrow>
                   if \<not> headerFound then Inr (loopStart', loopLength', rd2)
                   else Read_loop_l loopStart' loopLength' rd2)"
  by pat_completeness auto
termination
proof (relation "measure (\<lambda>(ls, ll, rd). weight rd)", goal_cases)
  case 1
  show ?case by simp
next
  case 2
  then show ?case
    by (auto dest!: ReadBytes_OggS_weight read_page_l_weight)
qed

declare Read_loop_l.simps [simp del]

text \<open>
  \<open>Read\<close> of the error-latching file.  The deferred function copies a latched error into
  the named result \<open>err\<close>; the other two named results keep the values they have.
\<close>

definition Read_latched :: "byte list \<Rightarrow> result" where
  "Read_latched src =
     (case Read_loop_l 0 0 \<lparr>rd_r = src, rd_err = None\<rparr> of
        Inl p \<Rightarrow> Panicked p
      | Inr (loopStart, loopLength, rd) \<Rightarrow> Return loopStart loopLength (rd_err rd))"

section \<open>Basic facts about the readers\<close>

lemma ReadFull_enough:
  "n \<le> length src \<Longrightarrow> ReadFull src n = (take n src, None, drop n src)"
  by (simp add: ReadFull_def)

lemma ReadFull_append:
  "length xs = n \<Longrightarrow> ReadFull (xs @ rest) n = (xs, None, rest)"
  by (simp add: ReadFull_def)

lemma ReadFull_short:
  "length src < n \<Longrightarrow>
   ReadFull src n = (src @ replicate (n - length src) 0,
                     Some (if src = [] then EOF else ErrUnexpectedEOF), [])"
  by (simp add: ReadFull_def)

lemma ReadBytes_latched:
  "rd_err rd \<noteq> None \<Longrightarrow> 0 \<le> n \<Longrightarrow> ReadBytes rd n = Inr (replicate (nat n) 0, rd)"
  by (simp add: ReadBytes_def Let_def)

lemma ReadByte_latched: "rd_err rd \<noteq> None \<Longrightarrow> ReadByte rd = Inr (0, rd)"
  by (simp add: ReadByte_def ReadBytes_latched)

lemma Skip_latched: "rd_err rd \<noteq> None \<Longrightarrow> Skip rd n = Inr rd"
  by (simp add: Skip_def)

lemma seg_loop_l_latched:
  "rd_err rd \<noteq> None \<Longrightarrow> seg_loop_l segs i hf ls ll rd = Inr (hf, ls, ll, rd)"
proof (induction "length segs - i" arbitrary: i rule: less_induct)
  case less
  show ?case
  proof (cases "i < length segs")
    case False
    then show ?thesis by (simp add: seg_loop_l.simps)
  next
    case True
    have "seg_loop_l segs (Suc i) hf ls ll rd = Inr (hf, ls, ll, rd)"
      using less.hyps [of "Suc i"] less.prems True by simp
    with True less.prems show ?thesis
      by (subst seg_loop_l.simps)
         (simp add: ReadByte_latched ReadBytes_latched Skip_latched zeros_neq_vorb)
  qed
qed

lemma read_page_l_latched:
  "rd_err rd \<noteq> None \<Longrightarrow> read_page_l ls ll rd = Inr (False, ls, ll, rd)"
  by (simp add: read_page_l_def Skip_latched ReadByte_latched ReadBytes_latched
      seg_loop_l_latched)

lemma Read_loop_l_latched:
  "rd_err rd \<noteq> None \<Longrightarrow> Read_loop_l ls ll rd = Inr (ls, ll, rd)"
  by (subst Read_loop_l.simps) (simp add: ReadBytes_latched zeros_neq_OggS)

text \<open>
  While no error is latched the error-latching reader does what the plain source does;
  \<open>fresh src\<close> is such a reader with \<open>src\<close> left to read.
\<close>

definition fresh :: "byte list \<Rightarrow> errReader" where
  "fresh src = \<lparr>rd_r = src, rd_err = None\<rparr>"

lemma fresh_sel [simp]: "rd_r (fresh src) = src" "rd_err (fresh src) = None"
  by (simp_all add: fresh_def)

lemma ReadBytes_fresh:
  "0 \<le> n \<Longrightarrow>
   ReadBytes (fresh src) n =
     (case ReadFull src (nat n) of (buf, e, src') \<Rightarrow> Inr (buf, \<lparr>rd_r = src', rd_err = e\<rparr>))"
  by (simp add: ReadBytes_def fresh_def ReadFull_def Let_def)

lemma ReadBytes_fresh_ok:
  "0 \<le> n \<Longrightarrow> ReadFull src (nat n) = (buf, None, src') \<Longrightarrow>
   ReadBytes (fresh src) n = Inr (buf, fresh src')"
  by (simp add: ReadBytes_fresh)

lemma ReadByte_fresh:
  "ReadByte (fresh src) =
     (case readByte src of (b, e, src') \<Rightarrow> Inr (b, \<lparr>rd_r = src', rd_err = e\<rparr>))"
  by (cases src) (simp_all add: ReadByte_def ReadBytes_fresh readByte_def ReadFull_def)

lemma Skip_fresh:
  "0 \<le> n \<Longrightarrow>
   Skip (fresh src) n = (case skip src n of (e, src') \<Rightarrow> Inr \<lparr>rd_r = src', rd_err = e\<rparr>)"
  by (auto simp: Skip_def skip_def ReadBytes_fresh split: prod.splits)

lemma Skip_fresh_negative:
  "n < 0 \<Longrightarrow> Skip (fresh src) n = Inr \<lparr>rd_r = src, rd_err = Some (ErrSkipBytes n)\<rparr>"
  by (simp add: Skip_def fresh_def)

lemma skip_negative: "n < 0 \<Longrightarrow> skip src n = (Some (ErrSkipByte n), src)"
  by (simp add: skip_def)

lemma ReadFull_error_last:
  assumes "ReadFull src n = (b, Some e, src')"
  shows "b \<noteq> [] \<and> last b = 0"
proof -
  from assms have "length src < n" and b: "b = take n src @ replicate (n - length src) 0"
    by (auto simp: ReadFull_def split: if_splits)
  then have "n - length src \<noteq> 0" by simp
  with b show ?thesis by simp
qed

lemma ReadFull_error_not_vorb: "ReadFull src n = (b, Some e, src') \<Longrightarrow> b \<noteq> bytes ''vorb''"
  by (auto dest!: ReadFull_error_last simp: bytes_vorb)

lemma ReadFull_error_not_OggS: "ReadFull src n = (b, Some e, src') \<Longrightarrow> b \<noteq> bytes ''OggS''"
  by (auto dest!: ReadFull_error_last simp: bytes_OggS)

lemma set_from_tag_l_eq:
  "set_from_tag_l re meta old =
     (case set_from_tag re meta old of Panic p \<Rightarrow> Inl p | Fail e \<Rightarrow> Inl (PanicError e) | Ok n \<Rightarrow> Inr n)"
  by (simp add: set_from_tag_l_def set_from_tag_def mustAtoi_def Let_def split: sum.splits)

lemma set_from_tag_not_Fail: "set_from_tag re meta old \<noteq> Fail e"
  by (simp add: set_from_tag_def Let_def split: sum.splits)

text \<open>
  How a run of the error-latching loop relates to the run of the loop of oggloop.go on the
  same input: the same normal result, the same panic, and where oggloop.go returns an
  error the latching loop ends with an error latched, or panics.
\<close>

definition sim_seg ::
  "(bool \<times> int \<times> int \<times> byte list) run \<Rightarrow> panic + bool \<times> int \<times> int \<times> errReader \<Rightarrow> bool" where
  "sim_seg R L =
     (case R of
        Ok (hf, ls, ll, src) \<Rightarrow> L = Inr (hf, ls, ll, fresh src)
      | Panic p \<Rightarrow> L = Inl p
      | Fail e \<Rightarrow> (case L of Inl p \<Rightarrow> True | Inr (hf, ls, ll, rd) \<Rightarrow> rd_err rd \<noteq> None))"

lemma seg_loop_sim:
  "sim_seg (seg_loop segs i hf ls ll src) (seg_loop_l segs i hf ls ll (fresh src))"
proof (induction "length segs - i" arbitrary: i hf ls ll src rule: less_induct)
  case less
  show ?case
  proof (cases "i < length segs")
    case False
    then show ?thesis
      by (simp add: seg_loop.simps seg_loop_l.simps sim_seg_def)
  next
    case True
    have IH: "sim_seg (seg_loop segs j h a b s) (seg_loop_l segs j h a b (fresh s))"
      if "i < j" for j h a b s
      using less.hyps [of j h a b s] that True by simp
    have idx: "i < Suc (snd (size_loop segs i 0))"
      using size_loop_index_ge [of i segs 0] by simp
    obtain t e1 src1 where rb: "readByte src = (t, e1, src1)"
      by (cases "readByte src") auto
    obtain b e2 src2 where rf: "ReadFull src1 4 = (b, e2, src2)"
      by (cases "ReadFull src1 4") auto
    show ?thesis
    proof (cases e1)
      case (Some e)
      then show ?thesis
        using True rb
        by (subst seg_loop.simps, subst seg_loop_l.simps)
           (simp add: ReadByte_fresh ReadBytes_latched Skip_latched zeros_neq_vorb
             seg_loop_l_latched sim_seg_def)
    next
      case None
      note e1 = this
      have rb': "ReadByte (fresh src) = Inr (t, fresh src1)"
        using rb e1 by (simp add: ReadByte_fresh)
      show ?thesis
      proof (cases e2)
        case (Some e)
        then have "b \<noteq> bytes ''vorb''"
          using rf by (auto dest: ReadFull_error_not_vorb)
        then show ?thesis
          using True rb e1 rb' rf Some
          by (subst seg_loop.simps, subst seg_loop_l.simps)
             (simp add: ReadBytes_fresh Skip_latched seg_loop_l_latched sim_seg_def)
      next
        case None
        note e2 = this
        have rf': "ReadBytes (fresh src1) 4 = Inr (b, fresh src2)"
          using rf e2 by (simp add: ReadBytes_fresh_ok)
        show ?thesis
        proof (cases "b \<noteq> bytes ''vorb'' \<or> t \<noteq> 3")
          case other: True
          define h where "h = (if b \<noteq> bytes ''vorb'' then hf else True)"
          define n where "n = uint (segs ! i) - 5"
          have early: "seg_loop segs i hf ls ll src =
              (case skip src2 n of (Some err, _) \<Rightarrow> Fail err
               | (None, src3) \<Rightarrow> seg_loop segs (Suc i) h ls ll src3)"
            using True rb e1 rf e2 other unfolding h_def n_def
            by (subst seg_loop.simps) auto
          have late: "seg_loop_l segs i hf ls ll (fresh src) =
              (case Skip (fresh src2) n of Inl p \<Rightarrow> Inl p
               | Inr rd3 \<Rightarrow> seg_loop_l segs (Suc i) h ls ll rd3)"
            using True rb' rf' other unfolding h_def n_def
            by (subst seg_loop_l.simps) auto
          show ?thesis
          proof (cases "n < 0")
            case True
            then show ?thesis
              unfolding early late
              by (simp add: skip_negative Skip_fresh_negative seg_loop_l_latched sim_seg_def)
          next
            case False
            obtain e3 src3 where sk: "skip src2 n = (e3, src3)"
              by (cases "skip src2 n") auto
            show ?thesis
            proof (cases e3)
              case None
              with sk False have "Skip (fresh src2) n = Inr (fresh src3)"
                by (simp add: Skip_fresh)
              with sk None show ?thesis
                unfolding early late using IH [of "Suc i" h ls ll src3] by simp
            next
              case (Some e)
              with sk False have "Skip (fresh src2) n = Inr \<lparr>rd_r = src3, rd_err = Some e\<rparr>"
                by (simp add: Skip_fresh)
              with sk Some show ?thesis
                unfolding early late by (simp add: seg_loop_l_latched sim_seg_def)
            qed
          qed
        next
          case comment: False
          define sz where "sz = fst (size_loop segs i 0) - 5"
          define i' where "i' = snd (size_loop segs i 0)"
          have early: "seg_loop segs i hf ls ll src =
              (if sz < 0 then Panic MakesliceLenOutOfRange
               else case ReadFull src2 (nat sz) of
                  (_, Some err, _) \<Rightarrow> Fail err
                | (meta, None, src3) \<Rightarrow>
                (case set_from_tag loopStartRe meta ls of
                   Panic p \<Rightarrow> Panic p
                 | Fail err \<Rightarrow> Fail err
                 | Ok ls' \<Rightarrow>
                (case set_from_tag loopLengthRe meta ll of
                   Panic p \<Rightarrow> Panic p
                 | Fail err \<Rightarrow> Fail err
                 | Ok ll' \<Rightarrow> seg_loop segs (Suc i') True ls' ll' src3)))"
            using True rb e1 rf e2 comment unfolding sz_def i'_def
            by (subst seg_loop.simps) (simp add: Let_def)
          have late: "seg_loop_l segs i hf ls ll (fresh src) =
              (case ReadBytes (fresh src2) sz of
                  Inl p \<Rightarrow> Inl p
                | Inr (meta, rd3) \<Rightarrow>
                (case set_from_tag_l loopStartRe meta ls of
                   Inl p \<Rightarrow> Inl p
                 | Inr ls' \<Rightarrow>
                (case set_from_tag_l loopLengthRe meta ll of
                   Inl p \<Rightarrow> Inl p
                 | Inr ll' \<Rightarrow> seg_loop_l segs (Suc i') True ls' ll' rd3)))"
            using True rb' rf' comment unfolding sz_def i'_def
            by (subst seg_loop_l.simps) (simp add: Let_def)
          show ?thesis
          proof (cases "sz < 0")
            case True
            then show ?thesis
              unfolding early late by (simp add: ReadBytes_def sim_seg_def)
          next
            case False
            obtain meta e4 src3 where rm: "ReadFull src2 (nat sz) = (meta, e4, src3)"
              by (cases "ReadFull src2 (nat sz)") auto
            show ?thesis
            proof (cases e4)
              case (Some e)
              with rm False
              have "ReadBytes (fresh src2) sz = Inr (meta, \<lparr>rd_r = src3, rd_err = Some e\<rparr>)"
                by (simp add: ReadBytes_fresh)
              with rm Some False show ?thesis
                unfolding early late
                by (simp add: seg_loop_l_latched sim_seg_def split: sum.splits)
            next
              case None
              with rm False have "ReadBytes (fresh src2) sz = Inr (meta, fresh src3)"
                by (simp add: ReadBytes_fresh_ok)
              with rm None False have
                early': "seg_loop segs i hf ls ll src =
                  (case set_from_tag loopStartRe meta ls of
                     Panic p \<Rightarrow> Panic p
                   | Fail err \<Rightarrow> Fail err
                   | Ok ls' \<Rightarrow>
                  (case set_from_tag loopLengthRe meta ll of
                     Panic p \<Rightarrow> Panic p
                   | Fail err \<Rightarrow> Fail err
                   | Ok ll' \<Rightarrow> seg_loop segs (Suc i') True ls' ll' src3))"
                and late': "seg_loop_l segs i hf ls ll (fresh src) =
                  (case set_from_tag_l loopStartRe meta ls of
                     Inl p \<Rightarrow> Inl p
                   | Inr ls' \<Rightarrow>
                  (case set_from_tag_l loopLengthRe meta ll of
                     Inl p \<Rightarrow> Inl p
                   | Inr ll' \<Rightarrow> seg_loop_l segs (Suc i') True ls' ll' (fresh src3)))"
                unfolding early late by simp_all
              show ?thesis
              proof (cases "set_from_tag loopStartRe meta ls")
                case (Panic p)
                then show ?thesis
                  unfolding early' late' by (simp add: set_from_tag_l_eq sim_seg_def)
              next
                case (Fail e)
                then show ?thesis by (simp add: set_from_tag_not_Fail)
              next
                case s1: (Ok ls')
                show ?thesis
                proof (cases "set_from_tag loopLengthRe meta ll")
                  case (Panic p)
                  with s1 show ?thesis
                    unfolding early' late' by (simp add: set_from_tag_l_eq sim_seg_def)
                next
                  case (Fail e)
                  then show ?thesis by (simp add: set_from_tag_not_Fail)
                next
                  case (Ok ll')
                  with s1 show ?thesis
                    unfolding early' late'
                    using IH [of "Suc i'" True ls' ll' src3] idx
                    by (simp add: set_from_tag_l_eq i'_def)
                qed
              qed
            qed
          qed
        qed
      qed
    qed
  qed
qed

lemma read_page_sim:
  "sim_seg (read_page ls ll src) (read_page_l ls ll (fresh src))"
proof -
  obtain e1 src1 where sk: "skip src 22 = (e1, src1)"
    by (cases "skip src 22") auto
  show ?thesis
  proof (cases e1)
    case (Some e)
    with sk show ?thesis
      by (simp add: read_page_def read_page_l_def Skip_fresh Skip_latched ReadByte_latched
          ReadBytes_latched seg_loop_l_latched sim_seg_def)
  next
    case None
    with sk have sk': "Skip (fresh src) 22 = Inr (fresh src1)"
      by (simp add: Skip_fresh)
    obtain nseg e2 src2 where rb: "readByte src1 = (nseg, e2, src2)"
      by (cases "readByte src1") auto
    show ?thesis
    proof (cases e2)
      case (Some e)
      with sk None sk' rb show ?thesis
        by (simp add: read_page_def read_page_l_def ReadByte_fresh
            ReadBytes_latched seg_loop_l_latched sim_seg_def)
    next
      case e2: None
      with rb have rb': "ReadByte (fresh src1) = Inr (nseg, fresh src2)"
        by (simp add: ReadByte_fresh)
      obtain segs e3 src3 where rf: "ReadFull src2 (unat nseg) = (segs, e3, src3)"
        by (cases "ReadFull src2 (unat nseg)") auto
      show ?thesis
      proof (cases e3)
        case (Some e)
        with sk None sk' rb e2 rb' rf show ?thesis
          by (simp add: read_page_def read_page_l_def ReadBytes_fresh
              seg_loop_l_latched sim_seg_def)
      next
        case e3: None
        with rf have "ReadBytes (fresh src2) (uint nseg) = Inr (segs, fresh src3)"
          by (simp add: ReadBytes_fresh_ok)
        with sk None sk' rb e2 rb' rf e3 show ?thesis
          using seg_loop_sim [of segs 0 False ls ll src3]
          by (simp add: read_page_def read_page_l_def)
      qed
    qed
  qed
qed

definition sim_read :: "result \<Rightarrow> panic + int \<times> int \<times> errReader \<Rightarrow> bool" where
  "sim_read R L =
     (case R of
        Return a b None \<Rightarrow> (\<exists>rd. L = Inr (a, b, rd) \<and> rd_err rd = None)
      | Return a b (Some e) \<Rightarrow> (case L of Inl p \<Rightarrow> True | Inr (a', b', rd) \<Rightarrow> rd_err rd \<noteq> None)
      | Panicked p \<Rightarrow> L = Inl p)"

lemma Read_loop_sim:
  "sim_read (Read_loop ls ll src) (Read_loop_l ls ll (fresh src))"
proof (induction "length src" arbitrary: ls ll src rule: less_induct)
  case less
  obtain b e1 src1 where rf: "ReadFull src 4 = (b, e1, src1)"
    by (cases "ReadFull src 4") auto
  show ?case
  proof (cases e1)
    case (Some e)
    with rf have "b \<noteq> bytes ''OggS''"
      by (auto dest: ReadFull_error_not_OggS)
    with rf Some show ?thesis
      by (subst Read_loop.simps, subst Read_loop_l.simps)
         (simp add: ReadBytes_fresh sim_read_def)
  next
    case None
    with rf have rf': "ReadBytes (fresh src) 4 = Inr (b, fresh src1)"
      by (simp add: ReadBytes_fresh_ok)
    show ?thesis
    proof (cases "b = bytes ''OggS''")
      case False
      with rf None rf' show ?thesis
        by (subst Read_loop.simps, subst Read_loop_l.simps) (simp add: sim_read_def)
    next
      case True
      have early: "Read_loop ls ll src =
          (case read_page ls ll src1 of
             Panic p \<Rightarrow> Panicked p
           | Fail err \<Rightarrow> Return 0 0 (Some err)
           | Ok (headerFound, ls', ll', src2) \<Rightarrow>
               if \<not> headerFound then Return ls' ll' None else Read_loop ls' ll' src2)"
        using rf None True by (subst Read_loop.simps) simp
      have late: "Read_loop_l ls ll (fresh src) =
          (case read_page_l ls ll (fresh src1) of
             Inl p \<Rightarrow> Inl p
           | Inr (headerFound, ls', ll', rd2) \<Rightarrow>
               if \<not> headerFound then Inr (ls', ll', rd2) else Read_loop_l ls' ll' rd2)"
        using rf' True by (subst Read_loop_l.simps) simp
      have len1: "length src1 < length src"
        using ReadFull_ok_length [of src 4 b src1] rf None by simp
      show ?thesis
      proof (cases "read_page ls ll src1")
        case (Panic p)
        with read_page_sim [of ls ll src1] show ?thesis
          unfolding early late by (simp add: sim_seg_def sim_read_def)
      next
        case (Fail e)
        with read_page_sim [of ls ll src1] show ?thesis
          unfolding early late
          by (auto simp: sim_seg_def sim_read_def Read_loop_l_latched split: sum.splits)
      next
        case (Ok res)
        obtain hf ls' ll' src2 where res: "res = (hf, ls', ll', src2)"
          by (cases res) auto
        from Ok res read_page_sim [of ls ll src1]
        have pl: "read_page_l ls ll (fresh src1) = Inr (hf, ls', ll', fresh src2)"
          by (simp add: sim_seg_def)
        from Ok res have "length src2 \<le> length src1"
          by (auto dest: read_page_length)
        with len1 have "sim_read (Read_loop ls' ll' src2) (Read_loop_l ls' ll' (fresh src2))"
          using less.hyps [of src2 ls' ll'] by simp
        with Ok res pl show ?thesis
          unfolding early late by (simp add: sim_read_def)
      qed
    qed
  qed
qed

lemma Read_nil_iff:
  "Read_latched src = Return a b None \<longleftrightarrow> Read src = Return a b None"
proof -
  have s: "sim_read (Read_loop 0 0 src) (Read_loop_l 0 0 (fresh src))"
    by (rule Read_loop_sim)
  have l: "Read_latched src =
      (case Read_loop_l 0 0 (fresh src) of
         Inl p \<Rightarrow> Panicked p
       | Inr (loopStart, loopLength, rd) \<Rightarrow> Return loopStart loopLength (rd_err rd))"
    by (simp add: Read_latched_def fresh_def)
  show ?thesis
  proof (cases "Read_loop 0 0 src")
    case (Panicked p)
    with s show ?thesis
      by (simp add: l Read_def sim_read_def)
  next
    case (Return a' b' e)
    with s show ?thesis
      by (cases e) (auto simp: l Read_def sim_read_def split: sum.splits)
  qed
qed

section \<open>The packet size loop\<close>

lemma uint_255: "uint (255 :: byte) = 255"
  by simp

lemma size_loop_run:
  assumes "segs = pre @ replicate k 255 @ t # post" and "t < 255"
  shows "size_loop segs (length pre) sz = (sz + 255 * int k + uint t, length pre + k)"
  using assms
proof (induction k arbitrary: pre sz)
  case 0
  then show ?case
    by (subst size_loop.simps) (simp add: nth_append)
next
  case (Suc k)
  have segs: "segs = (pre @ [255]) @ replicate k 255 @ t # post"
    using Suc.prems(1) by simp
  have "size_loop segs (length (pre @ [255])) (sz + 255) =
      (sz + 255 + 255 * int k + uint t, length (pre @ [255]) + k)"
    by (rule Suc.IH [OF segs Suc.prems(2)])
  moreover have "segs ! length pre = 255" and "length pre < length segs"
    using Suc.prems(1) by (simp_all add: nth_append)
  ultimately show ?case
    by (subst size_loop.simps) (simp add: uint_255 add.assoc)
qed

lemma size_loop_exhausted:
  assumes "segs = pre @ replicate k 255"
  shows "size_loop segs (length pre) sz = (sz + 255 * int k, length segs)"
  using assms
proof (induction k arbitrary: pre sz)
  case 0
  then show ?case
    by (subst size_loop.simps) simp
next
  case (Suc k)
  have segs: "segs = (pre @ [255]) @ replicate k 255"
    using Suc.prems by (simp add: replicate_app_Cons_same)
  have "size_loop segs (length (pre @ [255])) (sz + 255) = (sz + 255 + 255 * int k, length segs)"
    by (rule Suc.IH [OF segs])
  moreover have "segs ! length pre = 255" and "length pre < length segs"
    using Suc.prems by (simp_all add: nth_append)
  ultimately show ?case
    by (subst size_loop.simps) (simp add: uint_255 add.assoc)
qed

section \<open>One step of the loops on a source of known shape\<close>

lemma length_vorb: "length (bytes ''vorb'') = 4"
  by (simp add: bytes_def)

lemma length_OggS: "length (bytes ''OggS'') = 4"
  by (simp add: bytes_def)

lemma readByte_Cons: "readByte (t # src) = (t, None, src)"
  by (simp add: readByte_def ReadFull_def)

lemma ReadByte_fresh_Cons: "ReadByte (fresh (t # src)) = Inr (t, fresh src)"
  by (simp add: ReadByte_fresh readByte_Cons)

lemma skip_append:
  "int (length body) = n \<Longrightarrow> skip (body @ rest) n = (None, rest)"
  by (auto simp: skip_def ReadFull_def)

lemma Skip_fresh_append:
  "int (length body) = n \<Longrightarrow> Skip (fresh (body @ rest)) n = Inr (fresh rest)"
  by (simp add: Skip_fresh skip_append [of body n rest])

lemma ReadBytes_fresh_append:
  "int (length body) = n \<Longrightarrow> ReadBytes (fresh (body @ rest)) n = Inr (body, fresh rest)"
  by (rule ReadBytes_fresh_ok) (auto simp: ReadFull_def)

lemma seg_loop_end:
  "\<not> i < length segs \<Longrightarrow> seg_loop segs i hf ls ll src = Ok (hf, ls, ll, src)"
  by (simp add: seg_loop.simps)

lemma seg_loop_l_end:
  "\<not> i < length segs \<Longrightarrow> seg_loop_l segs i hf ls ll rd = Inr (hf, ls, ll, rd)"
  by (simp add: seg_loop_l.simps)


lemma seg_loop_l_other:
  assumes "i < length segs" and "length sig = 4" and "sig \<noteq> bytes ''vorb'' \<or> t \<noteq> 3"
    and "int (length body) = uint (segs ! i) - 5"
  shows "seg_loop_l segs i hf ls ll (fresh (t # sig @ body @ rest)) =
           seg_loop_l segs (Suc i) (hf \<or> sig = bytes ''vorb'') ls ll (fresh rest)"
  using assms
  by (subst seg_loop_l.simps)
     (auto simp: ReadByte_fresh_Cons ReadBytes_fresh_append [of sig 4]
       Skip_fresh_append [of body _ rest])

lemma seg_loop_negative_skip:
  assumes "i < length segs" and "length sig = 4" and "sig \<noteq> bytes ''vorb'' \<or> t \<noteq> 3"
    and "segs ! i < 5"
  shows "seg_loop segs i hf ls ll (t # sig @ rest) = Fail (ErrSkipByte (uint (segs ! i) - 5))"
proof -
  from assms(4) have "uint (segs ! i) - 5 < 0"
    by (simp add: word_less_def)
  with assms(1-3) show ?thesis
    by (subst seg_loop.simps) (auto simp: readByte_Cons ReadFull_append skip_negative)
qed

lemma seg_loop_comment:
  assumes "i < length segs"
    and "int (length payload) = fst (size_loop segs i 0) - 5"
  shows "seg_loop segs i hf ls ll (3 # bytes ''vorb'' @ payload @ rest) =
           (case set_from_tag loopStartRe payload ls of
              Panic p \<Rightarrow> Panic p
            | Fail err \<Rightarrow> Fail err
            | Ok ls' \<Rightarrow>
           (case set_from_tag loopLengthRe payload ll of
              Panic p \<Rightarrow> Panic p
            | Fail err \<Rightarrow> Fail err
            | Ok ll' \<Rightarrow> seg_loop segs (Suc (snd (size_loop segs i 0))) True ls' ll' rest))"
proof -
  from assms(2) have "\<not> fst (size_loop segs i 0) - 5 < 0"
    and "ReadFull (payload @ rest) (nat (fst (size_loop segs i 0) - 5)) = (payload, None, rest)"
    by (auto simp: ReadFull_def)
  with assms(1) show ?thesis
    by (subst seg_loop.simps)
       (simp add: readByte_Cons ReadFull_append length_vorb Let_def)
qed

lemma seg_loop_l_comment:
  assumes "i < length segs"
    and "int (length payload) = fst (size_loop segs i 0) - 5"
  shows "seg_loop_l segs i hf ls ll (fresh (3 # bytes ''vorb'' @ payload @ rest)) =
           (case set_from_tag_l loopStartRe payload ls of
              Inl p \<Rightarrow> Inl p
            | Inr ls' \<Rightarrow>
           (case set_from_tag_l loopLengthRe payload ll of
              Inl p \<Rightarrow> Inl p
            | Inr ll' \<Rightarrow>
                seg_loop_l segs (Suc (snd (size_loop segs i 0))) True ls' ll' (fresh rest)))"
  using assms
  by (subst seg_loop_l.simps)
     (simp add: ReadByte_fresh_Cons ReadBytes_fresh_append length_vorb Let_def)

lemma seg_loop_makeslice:
  assumes "i < length segs" and "fst (size_loop segs i 0) < 5"
  shows "seg_loop segs i hf ls ll (3 # bytes ''vorb'' @ rest) = Panic MakesliceLenOutOfRange"
  using assms
  by (subst seg_loop.simps)
     (simp add: readByte_Cons ReadFull_append length_vorb Let_def)

lemma seg_loop_l_makeslice:
  assumes "i < length segs" and "fst (size_loop segs i 0) < 5"
  shows "seg_loop_l segs i hf ls ll (fresh (3 # bytes ''vorb'' @ rest)) =
           Inl MakesliceLenOutOfRange"
proof -
  from assms(2) have "ReadBytes (fresh rest) (fst (size_loop segs i 0) - 5) =
      Inl MakesliceLenOutOfRange"
    by (simp add: ReadBytes_def)
  with assms(1) show ?thesis
    by (subst seg_loop_l.simps)
       (simp add: ReadByte_fresh_Cons ReadBytes_fresh_append [of "bytes ''vorb''" 4]
         length_vorb Let_def)
qed

lemma read_page_table:
  assumes "length hdr = 22" and "unat nseg = length segs"
  shows "read_page ls ll (hdr @ nseg # segs @ body) = seg_loop segs 0 False ls ll body"
  using assms
  by (simp add: read_page_def skip_append [of hdr 22] readByte_Cons ReadFull_append)

lemma read_page_l_table:
  assumes "length hdr = 22" and "unat nseg = length segs"
  shows "read_page_l ls ll (fresh (hdr @ nseg # segs @ body)) =
           seg_loop_l segs 0 False ls ll (fresh body)"
proof -
  from assms(2) have "int (length segs) = uint nseg"
    by (simp add: uint_nat)
  then have "ReadBytes (fresh (segs @ body)) (uint nseg) = Inr (segs, fresh body)"
    by (rule ReadBytes_fresh_append)
  with assms(1) show ?thesis
    by (simp add: read_page_l_def Skip_fresh_append [of hdr 22] ReadByte_fresh_Cons)
qed

lemma Read_loop_OggS:
  "Read_loop ls ll (bytes ''OggS'' @ rest) =
     (case read_page ls ll rest of
        Panic p \<Rightarrow> Panicked p
      | Fail err \<Rightarrow> Return 0 0 (Some err)
      | Ok (headerFound, ls', ll', src2) \<Rightarrow>
          if \<not> headerFound then Return ls' ll' None else Read_loop ls' ll' src2)"
  by (subst Read_loop.simps) (simp add: ReadFull_append length_OggS)

lemma Read_loop_l_OggS:
  "Read_loop_l ls ll (fresh (bytes ''OggS'' @ rest)) =
     (case read_page_l ls ll (fresh rest) of
        Inl p \<Rightarrow> Inl p
      | Inr (headerFound, ls', ll', rd2) \<Rightarrow>
          if \<not> headerFound then Inr (ls', ll', rd2) else Read_loop_l ls' ll' rd2)"
  by (subst Read_loop_l.simps) (simp add: ReadBytes_fresh_append length_OggS)

lemma Read_loop_foreign:
  "4 \<le> length src \<Longrightarrow> take 4 src \<noteq> bytes ''OggS'' \<Longrightarrow> Read_loop ls ll src = Return ls ll None"
  by (subst Read_loop.simps) (simp add: ReadFull_enough)

lemma Read_loop_l_foreign:
  "4 \<le> length src \<Longrightarrow> take 4 src \<noteq> bytes ''OggS'' \<Longrightarrow>
   Read_loop_l ls ll (fresh src) = Inr (ls, ll, fresh (drop 4 src))"
  by (subst Read_loop_l.simps) (simp add: ReadBytes_fresh_ok ReadFull_enough)

lemma Read_loop_eof: "Read_loop ls ll [] = Return 0 0 (Some EOF)"
  by (subst Read_loop.simps) (simp add: ReadFull_def)

lemma Read_loop_l_eof:
  "Read_loop_l ls ll (fresh []) = Inr (ls, ll, \<lparr>rd_r = [], rd_err = Some EOF\<rparr>)"
  by (subst Read_loop_l.simps) (simp add: ReadBytes_fresh ReadFull_def zeros_neq_OggS)

section \<open>Digit runs and the tag patterns\<close>

text \<open>The base-10 value of a digit run, most significant digit first.\<close>

definition dec :: "byte list \<Rightarrow> nat" where
  "dec ds = foldl (\<lambda>n c. 10 * n + unat (c - 0x30)) 0 ds"

text \<open>At position \<open>p\<close> the text reads the key followed by at least one digit.\<close>

definition tag_at :: "byte list \<Rightarrow> byte list \<Rightarrow> nat \<Rightarrow> bool" where
  "tag_at key str p \<longleftrightarrow>
     prefix key (drop p str) \<and> takeWhile is_digit (drop (p + length key) str) \<noteq> []"

lemma foldl_dec_ge: "n \<le> foldl (\<lambda>n c. 10 * n + unat (c - (0x30 :: byte))) n ds"
proof (induction ds arbitrary: n)
  case Nil
  show ?case by simp
next
  case (Cons c cs)
  have "n \<le> 10 * n + unat (c - 0x30)" by simp
  also have "\<dots> \<le> foldl (\<lambda>n c. 10 * n + unat (c - (0x30 :: byte))) (10 * n + unat (c - 0x30)) cs"
    by (rule Cons.IH)
  finally show ?case by simp
qed

lemma parse_digits_foldl:
  "list_all is_digit ds \<Longrightarrow> n < 2 ^ 64 \<Longrightarrow>
   parse_digits n ds =
     (if foldl (\<lambda>n c. 10 * n + unat (c - 0x30)) n ds < 2 ^ 64
      then Inr (foldl (\<lambda>n c. 10 * n + unat (c - 0x30)) n ds) else Inl ErrRange)"
proof (induction ds arbitrary: n)
  case Nil
  then show ?case by simp
next
  case (Cons c cs)
  show ?case
  proof (cases "2 ^ 64 \<le> 10 * n + unat (c - 0x30)")
    case True
    moreover have "10 * n + unat (c - 0x30)
        \<le> foldl (\<lambda>n c. 10 * n + unat (c - (0x30 :: byte))) (10 * n + unat (c - 0x30)) cs"
      by (rule foldl_dec_ge)
    ultimately have "\<not> foldl (\<lambda>n c. 10 * n + unat (c - (0x30 :: byte))) (10 * n + unat (c - 0x30)) cs < 2 ^ 64"
      by linarith
    with True Cons.prems show ?thesis
      by (simp add: Let_def)
  next
    case False
    with Cons show ?thesis
      by (simp add: Let_def)
  qed
qed

lemma digit_not_sign: "is_digit c \<Longrightarrow> c \<noteq> 0x2B \<and> c \<noteq> 0x2D"
  by (auto simp: is_digit_def)

text \<open>
  On a run of digits \<open>strconv.Atoi\<close> fails exactly when the value does not fit a 64-bit
  \<open>int\<close>.
\<close>

lemma Atoi_digits:
  assumes "ds \<noteq> []" and "list_all is_digit ds"
  shows "Atoi ds = (if dec ds < 2 ^ 63 then Inr (int (dec ds)) else Inl ErrRange)"
proof -
  from assms have "is_digit (hd ds)"
    by (cases ds) auto
  then have "hd ds \<noteq> 0x2B" and "hd ds \<noteq> 0x2D"
    by (auto dest: digit_not_sign)
  moreover have "(2::nat) ^ 63 < 2 ^ 64" by simp
  ultimately show ?thesis
    using assms by (auto simp: Atoi_def Let_def parse_digits_foldl dec_def)
qed

lemma dec_leading_zeros: "dec (replicate k 0x30 @ ds) = dec ds"
proof -
  have "foldl (\<lambda>n c. 10 * n + unat (c - (0x30 :: byte))) 0 (replicate k 0x30) = 0"
    by (induction k) simp_all
  then show ?thesis
    by (simp add: dec_def)
qed

text \<open>What \<open>FindSubmatch\<close> captures is a non-empty run of digits.\<close>

lemma FindSubmatch_cases:
  "FindSubmatch key str = [] \<or>
   (\<exists>ds. FindSubmatch key str = [key @ ds, ds] \<and> ds \<noteq> [] \<and> list_all is_digit ds)"
proof (induction str)
  case Nil
  show ?case by simp
next
  case (Cons c cs)
  have "list_all is_digit (takeWhile is_digit (drop (length key) (c # cs)))"
    by (simp add: list_all_iff) (meson set_takeWhileD)
  with Cons show ?case
    by (auto simp: Let_def)
qed

text \<open>\<open>FindSubmatch\<close> returns the match at the first position where the tag stands.\<close>

lemma FindSubmatch_first:
  assumes "tag_at key str p" and "\<forall>q<p. \<not> tag_at key str q"
  shows "FindSubmatch key str =
           [key @ takeWhile is_digit (drop (p + length key) str),
            takeWhile is_digit (drop (p + length key) str)]"
  using assms
proof (induction str arbitrary: p)
  case Nil
  then show ?case by (simp add: tag_at_def)
next
  case (Cons c cs)
  show ?case
  proof (cases p)
    case 0
    with Cons.prems(1) show ?thesis
      by (simp add: tag_at_def Let_def)
  next
    case (Suc p')
    with Cons.prems(2) have "\<not> tag_at key (c # cs) 0" by simp
    then have no: "\<not> (prefix key (c # cs) \<and> takeWhile is_digit (drop (length key) (c # cs)) \<noteq> [])"
      by (simp add: tag_at_def)
    from Cons.prems(1) Suc have 1: "tag_at key cs p'"
      by (simp add: tag_at_def)
    have 2: "\<forall>q<p'. \<not> tag_at key cs q"
    proof (intro allI impI)
      fix q assume "q < p'"
      then have "\<not> tag_at key (c # cs) (Suc q)"
        using Cons.prems(2) Suc by simp
      then show "\<not> tag_at key cs q"
        by (simp add: tag_at_def)
    qed
    from no have "FindSubmatch key (c # cs) = FindSubmatch key cs"
      by (auto simp: Let_def)
    with Cons.IH [OF 1 2] Suc show ?thesis
      by simp
  qed
qed

lemma FindSubmatch_none:
  "\<forall>q<length str. \<not> tag_at key str q \<Longrightarrow> FindSubmatch key str = []"
proof (induction str)
  case Nil
  show ?case by simp
next
  case (Cons c cs)
  from Cons.prems have "\<not> tag_at key (c # cs) 0" by simp
  then have no: "\<not> (prefix key (c # cs) \<and> takeWhile is_digit (drop (length key) (c # cs)) \<noteq> [])"
    by (simp add: tag_at_def)
  have "\<forall>q<length cs. \<not> tag_at key cs q"
  proof (intro allI impI)
    fix q assume "q < length cs"
    then have "\<not> tag_at key (c # cs) (Suc q)"
      using Cons.prems by simp
    then show "\<not> tag_at key cs q"
      by (simp add: tag_at_def)
  qed
  from no have "FindSubmatch key (c # cs) = FindSubmatch key cs"
    by (auto simp: Let_def)
  with Cons.IH [OF \<open>\<forall>q<length cs. \<not> tag_at key cs q\<close>] show ?case
    by simp
qed

section \<open>Tags of a payload of known shape\<close>

lemma tag_at_decomp:
  assumes "str = pre @ key @ ds @ post" and "ds \<noteq> []" and "list_all is_digit ds"
    and "post = [] \<or> \<not> is_digit (hd post)"
  shows "tag_at key str (length pre)"
    and "takeWhile is_digit (drop (length pre + length key) str) = ds"
proof -
  have "takeWhile is_digit (ds @ post) = ds"
  proof (cases post)
    case Nil
    with assms(3) show ?thesis
      by (simp add: list_all_iff)
  next
    case (Cons c cs)
    with assms(4) have "\<not> is_digit c" by simp
    with assms(3) Cons show ?thesis
      by (simp add: list_all_iff takeWhile_tail)
  qed
  with assms(1) show "takeWhile is_digit (drop (length pre + length key) str) = ds"
    by simp
  with assms(1,2) show "tag_at key str (length pre)"
    by (simp add: tag_at_def)
qed

lemma set_from_tag_first:
  assumes "tag_at key str p" and "\<forall>q<p. \<not> tag_at key str q"
    and "ds = takeWhile is_digit (drop (p + length key) str)"
  shows "set_from_tag key str old =
           (if dec ds < 2 ^ 63 then Ok (int (dec ds)) else Panic (PanicError ErrRange))"
proof -
  have m: "FindSubmatch key str = [key @ ds, ds]"
    using FindSubmatch_first [OF assms(1,2)] assms(3) by simp
  from assms(1,3) have "ds \<noteq> []"
    by (simp add: tag_at_def)
  moreover have "list_all is_digit ds"
    unfolding assms(3) by (simp add: list_all_iff) (meson set_takeWhileD)
  ultimately have "Atoi ds = (if dec ds < 2 ^ 63 then Inr (int (dec ds)) else Inl ErrRange)"
    by (rule Atoi_digits)
  with m show ?thesis
    by (simp add: set_from_tag_def)
qed

lemma set_from_tag_none:
  "\<forall>q<length str. \<not> tag_at key str q \<Longrightarrow> set_from_tag key str old = Ok old"
  by (simp add: set_from_tag_def FindSubmatch_none)

section \<open>Whole pages of known shape\<close>

text \<open>
  A page whose table is one lacing run (\<open>k\<close> entries 255 and a last entry below 255) and
  whose body is the comment packet: the tags of the payload are taken and the scan goes on
  behind the page.
\<close>

lemma Read_loop_comment_page:
  assumes "length hdr = 22" and "t < 255" and "unat nseg = Suc k"
    and "int (length payload) = 255 * int k + uint t - 5"
  shows "Read_loop ls ll
           (bytes ''OggS'' @ hdr @ nseg # (replicate k 255 @ [t])
              @ 3 # bytes ''vorb'' @ payload @ rest) =
           (case set_from_tag loopStartRe payload ls of
              Panic p \<Rightarrow> Panicked p
            | Fail err \<Rightarrow> Return 0 0 (Some err)
            | Ok ls' \<Rightarrow>
           (case set_from_tag loopLengthRe payload ll of
              Panic p \<Rightarrow> Panicked p
            | Fail err \<Rightarrow> Return 0 0 (Some err)
            | Ok ll' \<Rightarrow> Read_loop ls' ll' rest))"
proof -
  let ?segs = "replicate k 255 @ [t]"
  have sl: "size_loop ?segs 0 0 = (255 * int k + uint t, k)"
    using size_loop_run [of ?segs "[]" k t "[]" 0] assms(2) by simp
  have pg: "read_page ls ll (hdr @ nseg # replicate k 255 @ t # 3 # bytes ''vorb'' @ payload @ rest) =
      seg_loop ?segs 0 False ls ll (3 # bytes ''vorb'' @ payload @ rest)"
    using read_page_table [of hdr nseg ?segs ls ll "3 # bytes ''vorb'' @ payload @ rest"] assms
    by simp
  have sg: "seg_loop ?segs 0 False ls ll (3 # bytes ''vorb'' @ payload @ rest) =
      (case set_from_tag loopStartRe payload ls of
         Panic p \<Rightarrow> Panic p
       | Fail err \<Rightarrow> Fail err
       | Ok ls' \<Rightarrow>
      (case set_from_tag loopLengthRe payload ll of
         Panic p \<Rightarrow> Panic p
       | Fail err \<Rightarrow> Fail err
       | Ok ll' \<Rightarrow> Ok (True, ls', ll', rest)))"
    using seg_loop_comment [of 0 ?segs payload False ls ll rest] assms(4)
    by (simp add: sl seg_loop_end split: run.splits)
  show ?thesis
    by (simp add: Read_loop_OggS pg sg split: run.splits)
qed

lemma Read_loop_l_comment_page:
  assumes "length hdr = 22" and "t < 255" and "unat nseg = Suc k"
    and "int (length payload) = 255 * int k + uint t - 5"
  shows "Read_loop_l ls ll
           (fresh (bytes ''OggS'' @ hdr @ nseg # (replicate k 255 @ [t])
              @ 3 # bytes ''vorb'' @ payload @ rest)) =
           (case set_from_tag_l loopStartRe payload ls of
              Inl p \<Rightarrow> Inl p
            | Inr ls' \<Rightarrow>
           (case set_from_tag_l loopLengthRe payload ll of
              Inl p \<Rightarrow> Inl p
            | Inr ll' \<Rightarrow> Read_loop_l ls' ll' (fresh rest)))"
proof -
  let ?segs = "replicate k 255 @ [t]"
  have sl: "size_loop ?segs 0 0 = (255 * int k + uint t, k)"
    using size_loop_run [of ?segs "[]" k t "[]" 0] assms(2) by simp
  have pg: "read_page_l ls ll
        (fresh (hdr @ nseg # replicate k 255 @ t # 3 # bytes ''vorb'' @ payload @ rest)) =
      seg_loop_l ?segs 0 False ls ll (fresh (3 # bytes ''vorb'' @ payload @ rest))"
    using read_page_l_table [of hdr nseg ?segs ls ll "3 # bytes ''vorb'' @ payload @ rest"] assms
    by simp
  have sg: "seg_loop_l ?segs 0 False ls ll (fresh (3 # bytes ''vorb'' @ payload @ rest)) =
      (case set_from_tag_l loopStartRe payload ls of
         Inl p \<Rightarrow> Inl p
       | Inr ls' \<Rightarrow>
      (case set_from_tag_l loopLengthRe payload ll of
         Inl p \<Rightarrow> Inl p
       | Inr ll' \<Rightarrow> Inr (True, ls', ll', fresh rest)))"
    using seg_loop_l_comment [of 0 ?segs payload False ls ll rest] assms(4)
    by (simp add: sl seg_loop_l_end split: sum.splits)
  show ?thesis
    by (simp add: Read_loop_l_OggS pg sg split: sum.splits)
qed


lemma Read_loop_l_header_page:
  assumes "length hdr = 22" and "ty \<noteq> 3" and "int (length body) = uint n - 5"
  shows "Read_loop_l ls ll
           (fresh (bytes ''OggS'' @ hdr @ 1 # [n] @ ty # bytes ''vorb'' @ body @ rest)) =
           Read_loop_l ls ll (fresh rest)"
proof -
  have pg: "read_page_l ls ll (fresh (hdr @ 1 # n # ty # bytes ''vorb'' @ body @ rest)) =
      seg_loop_l [n] 0 False ls ll (fresh (ty # bytes ''vorb'' @ body @ rest))"
    using read_page_l_table [of hdr 1 "[n]" ls ll "ty # bytes ''vorb'' @ body @ rest"] assms(1)
    by simp
  have sg: "seg_loop_l [n] 0 False ls ll (fresh (ty # bytes ''vorb'' @ body @ rest)) =
      Inr (True, ls, ll, fresh rest)"
    using seg_loop_l_other [of 0 "[n]" "bytes ''vorb''" ty body False ls ll rest] assms
    by (simp add: length_vorb seg_loop_l_end)
  show ?thesis
    by (simp add: Read_loop_l_OggS pg sg)
qed


lemma Read_loop_l_data_page:
  assumes "length hdr = 22" and "length sig = 4" and "sig \<noteq> bytes ''vorb''"
    and "int (length body) = uint n - 5"
  shows "Read_loop_l ls ll (fresh (bytes ''OggS'' @ hdr @ 1 # [n] @ ty # sig @ body @ rest)) =
           Inr (ls, ll, fresh rest)"
proof -
  have pg: "read_page_l ls ll (fresh (hdr @ 1 # n # ty # sig @ body @ rest)) =
      seg_loop_l [n] 0 False ls ll (fresh (ty # sig @ body @ rest))"
    using read_page_l_table [of hdr 1 "[n]" ls ll "ty # sig @ body @ rest"] assms(1)
    by simp
  have sg: "seg_loop_l [n] 0 False ls ll (fresh (ty # sig @ body @ rest)) =
      Inr (False, ls, ll, fresh rest)"
    using seg_loop_l_other [of 0 "[n]" sig ty body False ls ll rest] assms
    by (simp add: seg_loop_l_end)
  show ?thesis
    by (simp add: Read_loop_l_OggS pg sg)
qed


section \<open>Normal termination of the scan\<close>

text \<open>
  The flag \<open>headerFound\<close> is only ever set, and the two values change only where it is
  set: a walk over the table that ends with the flag unset has left the values alone.
\<close>

lemma seg_loop_flag:
  "seg_loop segs i hf ls ll src = Ok (hf', ls', ll', src') \<Longrightarrow>
   (hf \<longrightarrow> hf') \<and> (\<not> hf' \<longrightarrow> ls' = ls \<and> ll' = ll)"
proof (induction "length segs - i" arbitrary: i hf ls ll src rule: less_induct)
  case less
  show ?case
  proof (cases "i < length segs")
    case False
    with less.prems show ?thesis
      by (simp add: seg_loop.simps)
  next
    case True
    have IH: "(h \<longrightarrow> hf') \<and> (\<not> hf' \<longrightarrow> ls' = a \<and> ll' = b)"
      if "i < j" and "seg_loop segs j h a b s = Ok (hf', ls', ll', src')" for j h a b s
      using less.hyps [of j h a b s] that True by simp
    have idx: "i < Suc (snd (size_loop segs i 0))"
      using size_loop_index_ge [of i segs 0] by simp
    obtain t src1 where 1: "readByte src = (t, None, src1)"
      using less.prems True
      by (subst (asm) seg_loop.simps) (auto split: prod.splits option.splits)
    obtain b src2 where 2: "ReadFull src1 4 = (b, None, src2)"
      using less.prems True 1
      by (subst (asm) seg_loop.simps) (auto split: prod.splits option.splits)
    show ?thesis
    proof (cases "b \<noteq> bytes ''vorb'' \<or> t \<noteq> 3")
      case other: True
      then obtain src3 where
        4: "seg_loop segs (Suc i) (hf \<or> b = bytes ''vorb'') ls ll src3 = Ok (hf', ls', ll', src')"
        using less.prems True 1 2
        by (subst (asm) seg_loop.simps) (auto split: prod.splits option.splits if_splits)
      from IH [OF _ 4] show ?thesis by auto
    next
      case comment: False
      then obtain a c src3 where
        4: "seg_loop segs (Suc (snd (size_loop segs i 0))) True a c src3 = Ok (hf', ls', ll', src')"
        using less.prems True 1 2
        by (subst (asm) seg_loop.simps)
           (auto split: prod.splits option.splits if_splits run.splits simp: Let_def)
      from IH [OF idx 4] show ?thesis by auto
    qed
  qed
qed

lemma read_page_no_header:
  "read_page ls ll src = Ok (False, ls', ll', src') \<Longrightarrow> ls' = ls \<and> ll' = ll"
  unfolding read_page_def
  by (auto split: prod.splits option.splits dest: seg_loop_flag)

text \<open>
  The two situations of a normal end, as read off the source at the start of a page: the
  four bytes of the capture pattern are there and are not \<open>OggS\<close>; or the page is read to
  its end without an error and without a \<open>vorb\<close> signature (\<open>headerFound\<close> stays false).
\<close>

definition capture_mismatch :: "byte list \<Rightarrow> bool" where
  "capture_mismatch src =
     (case ReadFull src 4 of (b, None, _) \<Rightarrow> b \<noteq> bytes ''OggS'' | (_, Some _, _) \<Rightarrow> False)"

definition page_without_header :: "int \<Rightarrow> int \<Rightarrow> byte list \<Rightarrow> bool" where
  "page_without_header ls ll src =
     (case ReadFull src 4 of
        (b, None, src1) \<Rightarrow>
          b = bytes ''OggS'' \<and>
          (case read_page ls ll src1 of Ok (hf, _, _, _) \<Rightarrow> \<not> hf | _ \<Rightarrow> False)
      | (_, Some _, _) \<Rightarrow> False)"

text \<open>
  The values accumulated so far: the state after \<open>k\<close> pages that were each read without
  an error and had a Vorbis header on them.
\<close>

fun after_pages :: "nat \<Rightarrow> int \<times> int \<times> byte list \<Rightarrow> (int \<times> int \<times> byte list) option" where
  "after_pages 0 s = Some s"
| "after_pages (Suc k) (ls, ll, src) =
     (case ReadFull src 4 of
        (b, None, src1) \<Rightarrow>
          if b = bytes ''OggS''
          then (case read_page ls ll src1 of
                  Ok (hf, ls', ll', src2) \<Rightarrow> if hf then after_pages k (ls', ll', src2) else None
                | _ \<Rightarrow> None)
          else None
      | (_, Some _, _) \<Rightarrow> None)"

lemma Read_loop_nil_only_if:
  "Read_loop ls ll src = Return a b None \<Longrightarrow>
   \<exists>k src'. after_pages k (ls, ll, src) = Some (a, b, src') \<and>
     (capture_mismatch src' \<or> page_without_header a b src')"
proof (induction "length src" arbitrary: ls ll src rule: less_induct)
  case less
  obtain b4 e src1 where rf: "ReadFull src 4 = (b4, e, src1)"
    by (cases "ReadFull src 4") auto
  from less.prems rf have e: "e = None"
    by (subst (asm) Read_loop.simps) (auto split: option.splits)
  show ?case
  proof (cases "b4 = bytes ''OggS''")
    case False
    with less.prems rf e have "a = ls" "b = ll"
      by (subst (asm) Read_loop.simps, simp)+
    moreover from False rf e have "capture_mismatch src"
      by (simp add: capture_mismatch_def)
    ultimately have "after_pages 0 (ls, ll, src) = Some (a, b, src) \<and>
        (capture_mismatch src \<or> page_without_header a b src)"
      by simp
    then show ?thesis by blast
  next
    case True
    have early: "Read_loop ls ll src =
        (case read_page ls ll src1 of
           Panic p \<Rightarrow> Panicked p
         | Fail err \<Rightarrow> Return 0 0 (Some err)
         | Ok (headerFound, ls', ll', src2) \<Rightarrow>
             if \<not> headerFound then Return ls' ll' None else Read_loop ls' ll' src2)"
      using rf e True by (subst Read_loop.simps) simp
    from less.prems obtain hf ls' ll' src2 where
      pg: "read_page ls ll src1 = Ok (hf, ls', ll', src2)"
      unfolding early by (auto split: run.splits)
    show ?thesis
    proof (cases hf)
      case False
      with less.prems pg have "a = ls'" "b = ll'"
        unfolding early by simp_all
      moreover from pg False have "ls' = ls" "ll' = ll"
        by (auto dest: read_page_no_header)
      moreover from rf e True pg False have "page_without_header ls ll src"
        by (simp add: page_without_header_def)
      ultimately have "after_pages 0 (ls, ll, src) = Some (a, b, src) \<and>
          (capture_mismatch src \<or> page_without_header a b src)"
        by simp
      then show ?thesis by blast
    next
      case hf: True
      with less.prems pg have nxt: "Read_loop ls' ll' src2 = Return a b None"
        unfolding early by simp
      have "length src2 < length src"
        using ReadFull_ok_length [of src 4 b4 src1] rf e read_page_length [OF pg] by simp
      from less.hyps [OF this nxt] obtain k src' where
        k: "after_pages k (ls', ll', src2) = Some (a, b, src')"
        and stop: "capture_mismatch src' \<or> page_without_header a b src'"
        by blast
      from k rf e True pg hf have "after_pages (Suc k) (ls, ll, src) = Some (a, b, src')"
        by simp
      with stop show ?thesis by blast
    qed
  qed
qed

lemma Read_loop_nil_if:
  "after_pages k (ls, ll, src) = Some (a, b, src') \<Longrightarrow>
   capture_mismatch src' \<or> page_without_header a b src' \<Longrightarrow>
   Read_loop ls ll src = Return a b None"
proof (induction k arbitrary: ls ll src)
  case 0
  then have eq: "a = ls" "b = ll" "src' = src"
    by simp_all
  from "0.prems"(2) show ?case
  proof
    assume "capture_mismatch src'"
    then show ?thesis
      unfolding eq capture_mismatch_def
      by (subst Read_loop.simps) (auto split: prod.splits option.splits)
  next
    assume "page_without_header a b src'"
    then obtain src1 ls' ll' src2 where rf: "ReadFull src 4 = (bytes ''OggS'', None, src1)"
      and pg: "read_page ls ll src1 = Ok (False, ls', ll', src2)"
      unfolding eq page_without_header_def
      by (auto split: prod.splits option.splits run.splits)
    from pg have "ls' = ls" "ll' = ll"
      by (auto dest: read_page_no_header)
    with rf pg show ?thesis
      unfolding eq by (subst Read_loop.simps) simp
  qed
next
  case (Suc k)
  from Suc.prems(1) obtain src1 ls' ll' src2 where
    rf: "ReadFull src 4 = (bytes ''OggS'', None, src1)"
    and pg: "read_page ls ll src1 = Ok (True, ls', ll', src2)"
    and nxt: "after_pages k (ls', ll', src2) = Some (a, b, src')"
    by (auto split: prod.splits option.splits run.splits if_splits)
  from Suc.IH [OF nxt Suc.prems(2)] rf pg show ?case
    by (subst Read_loop.simps) simp
qed

text \<open>In oggloop.go every error is returned with both values set to zero.\<close>

lemma Read_loop_error_zero:
  "Read_loop ls ll src = Return a b (Some e) \<Longrightarrow> a = 0 \<and> b = 0"
proof (induction "length src" arbitrary: ls ll src rule: less_induct)
  case less
  obtain b4 e1 src1 where rf: "ReadFull src 4 = (b4, e1, src1)"
    by (cases "ReadFull src 4") auto
  show ?case
  proof (cases "e1 = None \<and> b4 = bytes ''OggS''")
    case False
    with less.prems rf show ?thesis
      by (subst (asm) Read_loop.simps) (auto split: option.splits if_splits)
  next
    case True
    have early: "Read_loop ls ll src =
        (case read_page ls ll src1 of
           Panic p \<Rightarrow> Panicked p
         | Fail err \<Rightarrow> Return 0 0 (Some err)
         | Ok (headerFound, ls', ll', src2) \<Rightarrow>
             if \<not> headerFound then Return ls' ll' None else Read_loop ls' ll' src2)"
      using rf True by (subst Read_loop.simps) simp
    show ?thesis
    proof (cases "read_page ls ll src1")
      case (Panic p)
      with less.prems show ?thesis
        unfolding early by simp
    next
      case (Fail err)
      with less.prems show ?thesis
        unfolding early by simp
    next
      case (Ok res)
      obtain hf ls' ll' src2 where res: "res = (hf, ls', ll', src2)"
        by (cases res) auto
      with less.prems Ok have hf and nxt: "Read_loop ls' ll' src2 = Return a b (Some e)"
        unfolding early by (auto split: if_splits)
      have "length src2 < length src"
        using ReadFull_ok_length [of src 4 b4 src1] rf True read_page_length [of ls ll src1]
          Ok res by auto
      from less.hyps [OF this nxt] show ?thesis .
    qed
  qed
qed

lemma Read_error_zero: "Read src = Return a b (Some e) \<Longrightarrow> a = 0 \<and> b = 0"
  unfolding Read_def by (rule Read_loop_error_zero)

text \<open>
  The signatures that a walk over the segment table reads, in order: the four bytes
  behind each type byte, for every table entry at which a packet is classified.  The
  function follows \<open>seg_loop\<close> step by step and only records what is compared with
  \<open>vorb\<close>.
\<close>

function signatures :: "byte list \<Rightarrow> nat \<Rightarrow> byte list \<Rightarrow> byte list list" where
  "signatures segs i src =
     (if \<not> i < length segs then []
      else case readByte src of
        (_, Some err, _) \<Rightarrow> []
      | (headerType, None, src1) \<Rightarrow>
      (case ReadFull src1 4 of
        (_, Some err, _) \<Rightarrow> []
      | (b, None, src2) \<Rightarrow>
          if b \<noteq> bytes ''vorb'' \<or> headerType \<noteq> 3 then
            (case skip src2 (uint (segs ! i) - 5) of
               (Some err, _) \<Rightarrow> [b]
             | (None, src3) \<Rightarrow> b # signatures segs (Suc i) src3)
          else
            (let sz = fst (size_loop segs i 0) - 5;
                 i' = snd (size_loop segs i 0)
             in if sz < 0 then [b]
                else case ReadFull src2 (nat sz) of
                  (_, Some err, _) \<Rightarrow> [b]
                | (meta, None, src3) \<Rightarrow> b # signatures segs (Suc i') src3)))"
  by pat_completeness auto
termination
proof (relation "measure (\<lambda>(segs, i, src). length segs - i)", goal_cases)
  case 1
  show ?case by simp
next
  case 2
  then show ?case by simp
next
  case (3 segs i src)
  have "i \<le> snd (size_loop segs i 0)"
    by (rule size_loop_index_ge)
  with 3 show ?case by simp
qed

declare signatures.simps [simp del]

definition page_signatures :: "byte list \<Rightarrow> byte list list" where
  "page_signatures src =
     (case skip src (26 - 4) of
        (Some err, _) \<Rightarrow> []
      | (None, src1) \<Rightarrow>
      (case readByte src1 of
        (_, Some err, _) \<Rightarrow> []
      | (nseg, None, src2) \<Rightarrow>
      (case ReadFull src2 (unat nseg) of
        (_, Some err, _) \<Rightarrow> []
      | (segs, None, src3) \<Rightarrow> signatures segs 0 src3)))"

text \<open>\<open>headerFound\<close> is set exactly when one of these signatures is \<open>vorb\<close>.\<close>

lemma seg_loop_flag_signatures:
  "seg_loop segs i hf ls ll src = Ok (hf', ls', ll', src') \<Longrightarrow>
   hf' = (hf \<or> bytes ''vorb'' \<in> set (signatures segs i src))"
proof (induction "length segs - i" arbitrary: i hf ls ll src rule: less_induct)
  case less
  show ?case
  proof (cases "i < length segs")
    case False
    with less.prems show ?thesis
      by (simp add: seg_loop.simps signatures.simps)
  next
    case True
    have IH: "hf' = (h \<or> bytes ''vorb'' \<in> set (signatures segs j s))"
      if "i < j" and "seg_loop segs j h a b s = Ok (hf', ls', ll', src')" for j h a b s
      using less.hyps [of j h a b s] that True by simp
    have idx: "i < Suc (snd (size_loop segs i 0))"
      using size_loop_index_ge [of i segs 0] by simp
    obtain t src1 where 1: "readByte src = (t, None, src1)"
      using less.prems True
      by (subst (asm) seg_loop.simps) (auto split: prod.splits option.splits)
    obtain b src2 where 2: "ReadFull src1 4 = (b, None, src2)"
      using less.prems True 1
      by (subst (asm) seg_loop.simps) (auto split: prod.splits option.splits)
    show ?thesis
    proof (cases "b \<noteq> bytes ''vorb'' \<or> t \<noteq> 3")
      case other: True
      then obtain src3 where 3: "skip src2 (uint (segs ! i) - 5) = (None, src3)"
        and 4: "seg_loop segs (Suc i) (hf \<or> b = bytes ''vorb'') ls ll src3 = Ok (hf', ls', ll', src')"
        using less.prems True 1 2
        by (subst (asm) seg_loop.simps) (auto split: prod.splits option.splits if_splits)
      have "signatures segs i src = b # signatures segs (Suc i) src3"
        using True 1 2 3 other by (subst signatures.simps) simp
      with IH [OF _ 4] show ?thesis by auto
    next
      case comment: False
      then obtain meta a c src3 where
        3: "ReadFull src2 (nat (fst (size_loop segs i 0) - 5)) = (meta, None, src3)"
        and nn: "\<not> fst (size_loop segs i 0) - 5 < 0"
        and 4: "seg_loop segs (Suc (snd (size_loop segs i 0))) True a c src3 = Ok (hf', ls', ll', src')"
        using less.prems True 1 2
        by (subst (asm) seg_loop.simps)
           (auto split: prod.splits option.splits if_splits run.splits simp: Let_def)
      from IH [OF idx 4] have "hf'" by simp
      moreover have "signatures segs i src =
          b # signatures segs (Suc (snd (size_loop segs i 0))) src3"
        using True 1 2 3 nn comment by (subst signatures.simps) (simp add: Let_def)
      ultimately show ?thesis
        using comment by simp
    qed
  qed
qed

lemma read_page_flag_signatures:
  "read_page ls ll src = Ok (hf', ls', ll', src') \<Longrightarrow>
   hf' = (bytes ''vorb'' \<in> set (page_signatures src))"
  unfolding read_page_def page_signatures_def
  by (auto split: prod.splits option.splits dest: seg_loop_flag_signatures)

text \<open>
  The second situation in terms of the signatures: the page is read to its end without an
  error, and none of the signatures read on it is \<open>vorb\<close>.
\<close>

definition page_without_vorb :: "int \<Rightarrow> int \<Rightarrow> byte list \<Rightarrow> bool" where
  "page_without_vorb ls ll src =
     (case ReadFull src 4 of
        (b, None, src1) \<Rightarrow>
          b = bytes ''OggS'' \<and>
          (case read_page ls ll src1 of Ok _ \<Rightarrow> True | _ \<Rightarrow> False) \<and>
          bytes ''vorb'' \<notin> set (page_signatures src1)
      | (_, Some _, _) \<Rightarrow> False)"

lemma page_without_vorb_iff:
  "page_without_vorb ls ll src \<longleftrightarrow> page_without_header ls ll src"
  unfolding page_without_vorb_def page_without_header_def
  by (auto split: prod.splits option.splits run.splits dest: read_page_flag_signatures)

section \<open>The claims\<close>




text \<open>
  Claim C2.  The segment table is \<open>pre @ replicate k 255 @ rest_table\<close>, the comment header
  starts at the entry behind \<open>pre\<close>, and \<open>rest_table\<close> is empty (the table ends inside the
  run of 255s) or starts with an entry below 255.  The run of the packet is the \<open>k\<close>
  entries 255 and that entry, if there is one.  The size loop returns the sum of the run
  and stops after \<open>k\<close> entries; when the payload behind the five classification bytes has
  that sum minus 5 bytes, exactly these bytes are given to the two pattern searches, and
  the loop goes on behind the payload at the entry after the run.  This holds for the
  loops of both files.
\<close>

theorem C2_comment_packet_reassembly:
  assumes "segs = pre @ replicate k 255 @ rest_table"
    and "rest_table = [] \<or> hd rest_table < 255"
    and "0 < k \<or> rest_table \<noteq> []"
    and "int (length payload) = sum_list (map uint (replicate k 255 @ take 1 rest_table)) - 5"
  shows "size_loop segs (length pre) 0 =
           (sum_list (map uint (replicate k 255 @ take 1 rest_table)), length pre + k) \<and>
         seg_loop segs (length pre) hf ls ll (3 # bytes ''vorb'' @ payload @ rest) =
           (case set_from_tag loopStartRe payload ls of
              Panic p \<Rightarrow> Panic p
            | Fail err \<Rightarrow> Fail err
            | Ok ls' \<Rightarrow>
           (case set_from_tag loopLengthRe payload ll of
              Panic p \<Rightarrow> Panic p
            | Fail err \<Rightarrow> Fail err
            | Ok ll' \<Rightarrow> seg_loop segs (Suc (length pre + k)) True ls' ll' rest)) \<and>
         seg_loop_l segs (length pre) hf ls ll (fresh (3 # bytes ''vorb'' @ payload @ rest)) =
           (case set_from_tag_l loopStartRe payload ls of
              Inl p \<Rightarrow> Inl p
            | Inr ls' \<Rightarrow>
           (case set_from_tag_l loopLengthRe payload ll of
              Inl p \<Rightarrow> Inl p
            | Inr ll' \<Rightarrow> seg_loop_l segs (Suc (length pre + k)) True ls' ll' (fresh rest)))"
proof -
  have sl: "size_loop segs (length pre) 0 =
      (sum_list (map uint (replicate k 255 @ take 1 rest_table)), length pre + k)"
  proof (cases rest_table)
    case Nil
    with assms(1) show ?thesis
      using size_loop_exhausted [of segs pre k 0] by (simp add: sum_list_replicate)
  next
    case (Cons t post)
    with assms(2) have "t < 255" by simp
    with assms(1) Cons show ?thesis
      using size_loop_run [of segs pre k t post 0] by (simp add: sum_list_replicate)
  qed
  have i: "length pre < length segs"
    using assms(1,3) by auto
  have len: "int (length payload) = fst (size_loop segs (length pre) 0) - 5"
    using assms(4) by (simp add: sl)
  have nx: "snd (size_loop segs (length pre) 0) = length pre + k"
    by (simp add: sl)
  show ?thesis
    using seg_loop_comment [OF i len, of hf ls ll rest, unfolded nx]
      seg_loop_l_comment [OF i len, of hf ls ll rest, unfolded nx] sl
    by simp
qed

theorem C2_comment_packet_reassembly_witness:
  "size_loop [30, 255, 255, 7, 12] (length [30 :: byte]) 0 = (517, 3) \<and>
   seg_loop [30, 255, 255, 7, 12] 1 True 0 0
       (3 # bytes ''vorb'' @ replicate 512 0x20 @ [1, 2, 3]) =
     seg_loop [30, 255, 255, 7, 12] 4 True 0 0 [1, 2, 3] \<and>
   seg_loop_l [30, 255, 255, 7, 12] 1 True 0 0
       (fresh (3 # bytes ''vorb'' @ replicate 512 0x20 @ [1, 2, 3])) =
     seg_loop_l [30, 255, 255, 7, 12] 4 True 0 0 (fresh [1, 2, 3])"
proof -
  have r2: "replicate 2 (255 :: byte) = [255, 255]"
    by (simp add: numeral_2_eq_2)
  have 1: "[30, 255, 255, 7, 12] = [30 :: byte] @ replicate 2 255 @ [7, 12]"
    by (simp add: r2)
  have 2: "[7, 12 :: byte] = [] \<or> hd [7, 12 :: byte] < 255"
    by simp
  have 3: "0 < (2 :: nat) \<or> [7, 12 :: byte] \<noteq> []"
    by simp
  have 4: "int (length (replicate 512 (0x20 :: byte))) =
      sum_list (map uint (replicate 2 (255 :: byte) @ take 1 [7, 12])) - 5"
    by (simp add: r2)
  have tags: "set_from_tag loopStartRe (replicate 512 0x20) 0 = Ok 0"
    "set_from_tag loopLengthRe (replicate 512 0x20) 0 = Ok 0"
    by (rule set_from_tag_none, simp add: tag_at_def is_digit_def takeWhile_replicate)+
  have n: "(4 :: nat) = Suc (Suc (Suc (Suc 0)))" "(3 :: nat) = Suc (Suc (Suc 0))"
    by simp_all
  from C2_comment_packet_reassembly [OF 1 2 3 4, of True 0 0 "[1, 2, 3]"] show ?thesis
    unfolding n by (simp add: r2 tags set_from_tag_l_eq)
qed

text \<open>
  Claim C3 fails for the error-latching file.  The stream is one page whose comment packet
  is \<open>LOOPSTART=7\<close>, and then it ends: the next read of four bytes fails with \<open>io.EOF\<close>.
  oggloop.go returns (0, 0, EOF); the error-latching file returns the error together with
  the value 7 it had extracted.
\<close>

theorem C3_latched_error_keeps_values:
  "Read (bytes ''OggS'' @ replicate 22 0 @ [1, 16, 3] @ bytes ''vorb''
           @ bytes ''LOOPSTART=7'') = Return 0 0 (Some EOF) \<and>
   Read_latched (bytes ''OggS'' @ replicate 22 0 @ [1, 16, 3] @ bytes ''vorb''
           @ bytes ''LOOPSTART=7'') = Return 7 0 (Some EOF)"
proof -
  define payload where "payload = bytes ''LOOPSTART=7''"
  have len: "int (length payload) = 255 * int 0 + uint (16 :: byte) - 5"
    by (simp add: payload_def bytes_def)
  have m1: "FindSubmatch loopStartRe payload = [payload, bytes ''7'']"
    by (simp add: payload_def loopStartRe_def bytes_def is_digit_def Let_def)
  have m2: "FindSubmatch loopLengthRe payload = []"
    by (simp add: payload_def loopLengthRe_def bytes_def is_digit_def Let_def)
  have a: "Atoi (bytes ''7'') = Inr 7"
    by (simp add: Atoi_def bytes_def is_digit_def)
  have t1: "set_from_tag loopStartRe payload 0 = Ok 7"
    by (simp add: set_from_tag_def m1 a)
  have t2: "set_from_tag loopLengthRe payload 0 = Ok 0"
    by (simp add: set_from_tag_def m2)
  have 1: "Read_loop 0 0 (bytes ''OggS'' @ replicate 22 0 @ 1 # 16 # 3 # bytes ''vorb'' @ payload)
      = Return 0 0 (Some EOF)"
    using Read_loop_comment_page [of "replicate 22 0" 16 1 0 payload 0 0 "[]", OF _ _ _ len]
    by (simp add: t1 t2 Read_loop_eof)
  have 2: "Read_loop_l 0 0
      (fresh (bytes ''OggS'' @ replicate 22 0 @ 1 # 16 # 3 # bytes ''vorb'' @ payload))
      = Inr (7, 0, \<lparr>rd_r = [], rd_err = Some EOF\<rparr>)"
    using Read_loop_l_comment_page [of "replicate 22 0" 16 1 0 payload 0 0 "[]", OF _ _ _ len]
    by (simp add: set_from_tag_l_eq t1 t2 Read_loop_l_eof)
  from 1 2 show ?thesis
    by (simp add: Read_def Read_latched_def fresh_def payload_def)
qed

text \<open>
  Claim C4, as stated, at the empty stream: the first read of four bytes fails with
  \<open>io.EOF\<close>, and both files return that error instead of a nil error.
\<close>

theorem C4_empty_stream_counterexample:
  "Read [] = Return 0 0 (Some EOF) \<and> Read_latched [] = Return 0 0 (Some EOF)"
  by (simp add: Read_def Read_latched_def Read_loop.simps Read_loop_l.simps ReadFull_def
      ReadBytes_def zeros_neq_OggS)

text \<open>
  Claim C4, amended: for every stream that holds at least four bytes and whose first four
  bytes are not \<open>OggS\<close>, both files return loopStart = 0, loopLength = 0 and a nil
  error.
\<close>

theorem C4_foreign_stream:
  assumes "4 \<le> length src" and "take 4 src \<noteq> bytes ''OggS''"
  shows "Read src = Return 0 0 None \<and> Read_latched src = Return 0 0 None"
  using assms
  by (simp add: Read_def Read_latched_def Read_loop.simps Read_loop_l.simps ReadFull_enough
      ReadBytes_def)

theorem C4_foreign_stream_witness:
  "4 \<le> length (bytes ''RIFF0'') \<and> take 4 (bytes ''RIFF0'') \<noteq> bytes ''OggS'' \<and>
   Read (bytes ''RIFF0'') = Return 0 0 None \<and> Read_latched (bytes ''RIFF0'') = Return 0 0 None"
proof -
  have 1: "4 \<le> length (bytes ''RIFF0'')"
    by (simp add: bytes_def)
  have 2: "take 4 (bytes ''RIFF0'') \<noteq> bytes ''OggS''"
    by (simp add: bytes_def)
  from 1 2 C4_foreign_stream [OF 1 2] show ?thesis by simp
qed

text \<open>
  Claim C5 fails on a page whose comment packet is declared shorter than the five bytes
  already read: a table with the single entry 4, then the type byte 3 and \<open>vorb\<close>.  The
  size is 4 - 5 = -1, and both files call \<open>make([]byte, -1)\<close>, which panics, where the
  claim promises a returned protocol error.
\<close>

theorem C5_short_comment_packet_panics:
  "Read (bytes ''OggS'' @ replicate 22 0 @ [1, 4, 3] @ bytes ''vorb'') =
     Panicked MakesliceLenOutOfRange \<and>
   Read_latched (bytes ''OggS'' @ replicate 22 0 @ [1, 4, 3] @ bytes ''vorb'') =
     Panicked MakesliceLenOutOfRange"
proof -
  have sl: "fst (size_loop [4] 0 0) < 5"
    by (subst size_loop.simps) simp
  have "read_page 0 0 (replicate 22 0 @ 1 # 4 # 3 # bytes ''vorb'') =
      seg_loop [4] 0 False 0 0 (3 # bytes ''vorb'' @ [])"
    using read_page_table [of "replicate 22 0" 1 "[4]" 0 0 "3 # bytes ''vorb''"] by simp
  also have "\<dots> = Panic MakesliceLenOutOfRange"
    by (rule seg_loop_makeslice) (simp_all add: sl)
  finally have 1: "Read (bytes ''OggS'' @ replicate 22 0 @ [1, 4, 3] @ bytes ''vorb'') =
      Panicked MakesliceLenOutOfRange"
    by (simp add: Read_def Read_loop_OggS)
  have "read_page_l 0 0 (fresh (replicate 22 0 @ 1 # 4 # 3 # bytes ''vorb'')) =
      seg_loop_l [4] 0 False 0 0 (fresh (3 # bytes ''vorb'' @ []))"
    using read_page_l_table [of "replicate 22 0" 1 "[4]" 0 0 "3 # bytes ''vorb''"] by simp
  also have "\<dots> = Inl MakesliceLenOutOfRange"
    by (rule seg_loop_l_makeslice) (simp_all add: sl)
  finally have "Read_loop_l 0 0 (fresh (bytes ''OggS'' @ replicate 22 0 @ [1, 4, 3] @ bytes ''vorb''))
      = Inl MakesliceLenOutOfRange"
    by (simp add: Read_loop_l_OggS)
  then have 2: "Read_latched (bytes ''OggS'' @ replicate 22 0 @ [1, 4, 3] @ bytes ''vorb'') =
      Panicked MakesliceLenOutOfRange"
    by (simp add: Read_latched_def fresh_def)
  from 1 2 show ?thesis ..
qed

text \<open>
  Claim C6 fails on a digit run whose value does not fit a 64-bit \<open>int\<close>: the pattern
  matches \<open>LOOPSTART=9223372036854775808\<close> (2^63), \<open>strconv.Atoi\<close> returns a range error,
  and both files reach \<open>panic(err)\<close>.
\<close>

theorem C6_digit_run_out_of_range_panics:
  "Read (bytes ''OggS'' @ replicate 22 0 @ [1, 34, 3] @ bytes ''vorb''
           @ bytes ''LOOPSTART=9223372036854775808'') = Panicked (PanicError ErrRange) \<and>
   Read_latched (bytes ''OggS'' @ replicate 22 0 @ [1, 34, 3] @ bytes ''vorb''
           @ bytes ''LOOPSTART=9223372036854775808'') = Panicked (PanicError ErrRange)"
proof -
  define ds where "ds = bytes ''9223372036854775808''"
  define payload where "payload = bytes ''LOOPSTART=9223372036854775808''"
  have payload: "payload = [] @ loopStartRe @ ds @ []"
    by (simp add: payload_def ds_def loopStartRe_def bytes_def)
  have ds: "ds \<noteq> []" "list_all is_digit ds" "\<not> dec ds < 2 ^ 63"
    by (simp_all add: ds_def bytes_def is_digit_def dec_def)
  have len: "int (length payload) = 255 * int 0 + uint (34 :: byte) - 5"
    by (simp add: payload_def bytes_def)
  have "tag_at loopStartRe payload 0"
    and "takeWhile is_digit (drop (0 + length loopStartRe) payload) = ds"
    using tag_at_decomp [OF payload ds(1,2)] by simp_all
  then have tag: "set_from_tag loopStartRe payload 0 = Panic (PanicError ErrRange)"
    using set_from_tag_first [of loopStartRe payload 0 ds 0] ds(3) by simp
  have 1: "Read_loop 0 0 (bytes ''OggS'' @ replicate 22 0 @ 1 # 34 # 3 # bytes ''vorb'' @ payload)
      = Panicked (PanicError ErrRange)"
    using Read_loop_comment_page [of "replicate 22 0" 34 1 0 payload 0 0 "[]", OF _ _ _ len]
    by (simp add: tag)
  have 2: "Read_loop_l 0 0
      (fresh (bytes ''OggS'' @ replicate 22 0 @ 1 # 34 # 3 # bytes ''vorb'' @ payload))
      = Inl (PanicError ErrRange)"
    using Read_loop_l_comment_page [of "replicate 22 0" 34 1 0 payload 0 0 "[]", OF _ _ _ len]
    by (simp add: set_from_tag_l_eq tag)
  from 1 2 show ?thesis
    by (simp add: Read_def Read_latched_def fresh_def payload_def)
qed

text \<open>
  Claim C7: \<open>Read\<close> returns a nil error exactly when, after some number of pages that were
  read without an error and had a Vorbis header on them, the scan meets one of the two
  situations: four bytes that are not \<open>OggS\<close>, or a page read to its end on which no
  segment had the \<open>vorb\<close> signature.  The values returned are the ones accumulated over
  the pages before that point (zero if nothing was extracted).  This holds for both files.
\<close>

theorem C7_normal_termination:
  "(Read src = Return a b None \<longleftrightarrow>
      (\<exists>k src'. after_pages k (0, 0, src) = Some (a, b, src') \<and>
         (capture_mismatch src' \<or> page_without_vorb a b src'))) \<and>
   (Read_latched src = Return a b None \<longleftrightarrow>
      (\<exists>k src'. after_pages k (0, 0, src) = Some (a, b, src') \<and>
         (capture_mismatch src' \<or> page_without_vorb a b src')))"
proof -
  have "Read src = Return a b None \<longleftrightarrow>
      (\<exists>k src'. after_pages k (0, 0, src) = Some (a, b, src') \<and>
         (capture_mismatch src' \<or> page_without_vorb a b src'))"
    unfolding Read_def page_without_vorb_iff
    using Read_loop_nil_only_if [of 0 0 src a b] Read_loop_nil_if [of _ 0 0 src a b]
    by blast
  then show ?thesis
    by (simp add: Read_nil_iff)
qed

text \<open>
  Claim C8: a stream that starts with \<open>OggS\<close> and ends before its segment table is
  complete (inside the 22 skipped header bytes, before the segment count at offset 26, or
  with fewer table bytes than the count declares) makes both files return zero values and
  the read error of \<open>io.ReadFull\<close>, never a nil error.
\<close>

theorem C8_truncated_segment_table:
  assumes "take 4 src = bytes ''OggS''"
    and "length src < 27 \<or> length src < 27 + unat (src ! 26)"
  shows "\<exists>e. (e = EOF \<or> e = ErrUnexpectedEOF) \<and>
             Read src = Return 0 0 (Some e) \<and> Read_latched src = Return 0 0 (Some e)"
proof -
  have len: "4 \<le> length src"
    using arg_cong [OF assms(1), of length] by (simp add: bytes_def)
  have rf: "ReadFull src 4 = (bytes ''OggS'', None, drop 4 src)"
    using len assms(1) by (simp add: ReadFull_enough)
  have rf': "ReadBytes (fresh src) 4 = Inr (bytes ''OggS'', fresh (drop 4 src))"
    using rf by (simp add: ReadBytes_fresh_ok)
  have "\<exists>e rd. (e = EOF \<or> e = ErrUnexpectedEOF) \<and> read_page 0 0 (drop 4 src) = Fail e \<and>
           read_page_l 0 0 (fresh (drop 4 src)) = Inr (False, 0, 0, rd) \<and> rd_err rd = Some e"
  proof (cases "length src < 26")
    case True
    then have "skip (drop 4 src) 22 =
        (Some (if drop 4 src = [] then EOF else ErrUnexpectedEOF), [])"
      by (simp add: skip_def ReadFull_short)
    then show ?thesis
      by (simp add: read_page_def read_page_l_def Skip_fresh ReadByte_latched
          ReadBytes_latched seg_loop_l_latched)
  next
    case False
    then have sk: "skip (drop 4 src) 22 = (None, drop 26 src)"
      by (simp add: skip_def ReadFull_enough)
    then have sk': "Skip (fresh (drop 4 src)) 22 = Inr (fresh (drop 26 src))"
      by (simp add: Skip_fresh)
    show ?thesis
    proof (cases "length src = 26")
      case True
      then have "readByte (drop 26 src) = (0, Some EOF, [])"
        by (simp add: readByte_def ReadFull_def)
      then show ?thesis
        by (simp add: read_page_def read_page_l_def sk sk' ReadByte_fresh
            ReadBytes_latched seg_loop_l_latched)
    next
      case False
      with \<open>\<not> length src < 26\<close> have l27: "27 \<le> length src" by simp
      then have rb: "readByte (drop 26 src) = (src ! 26, None, drop 27 src)"
        by (simp add: readByte_def ReadFull_enough take_Suc_conv_app_nth hd_drop_conv_nth)
      then have rb': "ReadByte (fresh (drop 26 src)) = Inr (src ! 26, fresh (drop 27 src))"
        by (simp add: ReadByte_fresh)
      from l27 assms(2) have "length (drop 27 src) < unat (src ! 26)" by simp
      then have "ReadFull (drop 27 src) (unat (src ! 26)) =
          (drop 27 src @ replicate (unat (src ! 26) - length (drop 27 src)) 0,
           Some (if drop 27 src = [] then EOF else ErrUnexpectedEOF), [])"
        by (rule ReadFull_short)
      then show ?thesis
        by (simp add: read_page_def read_page_l_def sk sk' rb rb' ReadBytes_fresh
            seg_loop_l_latched)
    qed
  qed
  then obtain e rd where e: "e = EOF \<or> e = ErrUnexpectedEOF"
    and p: "read_page 0 0 (drop 4 src) = Fail e"
    and p': "read_page_l 0 0 (fresh (drop 4 src)) = Inr (False, 0, 0, rd)"
    and rd: "rd_err rd = Some e"
    by blast
  have "Read src = Return 0 0 (Some e)"
    by (simp add: Read_def Read_loop.simps [of 0 0 src] rf p)
  moreover have "Read_loop_l 0 0 (fresh src) = Inr (0, 0, rd)"
    by (simp add: Read_loop_l.simps [of 0 0 "fresh src"] rf' p')
  then have "Read_latched src = Return 0 0 (Some e)"
    by (simp add: Read_latched_def fresh_def rd)
  ultimately show ?thesis
    using e by blast
qed

theorem C8_truncated_segment_table_witness:
  "take 4 (bytes ''OggS'' @ replicate 22 0 @ [3, 40]) = bytes ''OggS'' \<and>
   (\<exists>e. (e = EOF \<or> e = ErrUnexpectedEOF) \<and>
     Read (bytes ''OggS'' @ replicate 22 0 @ [3, 40]) = Return 0 0 (Some e) \<and>
     Read_latched (bytes ''OggS'' @ replicate 22 0 @ [3, 40]) = Return 0 0 (Some e))"
proof -
  have 1: "take 4 (bytes ''OggS'' @ replicate 22 0 @ [3, 40]) = bytes ''OggS''"
    by (simp add: bytes_def)
  have 2: "length (bytes ''OggS'' @ replicate 22 0 @ [3, 40]) < 27 \<or>
      length (bytes ''OggS'' @ replicate 22 0 @ [3, 40])
        < 27 + unat ((bytes ''OggS'' @ replicate 22 0 @ [3, 40]) ! 26)"
    by (simp add: bytes_def nth_append)
  from 1 C8_truncated_segment_table [OF 1 2] show ?thesis by simp
qed

text \<open>
  Claim C9: whenever both files return a nil error on the same input, they return the same
  pair of values.
\<close>

theorem C9_same_values_on_success:
  assumes "Read src = Return a b None" and "Read_latched src = Return a' b' None"
  shows "a = a' \<and> b = b'"
  using assms Read_nil_iff [of src a' b'] by simp

theorem C9_same_values_on_success_witness:
  "Read (bytes ''OggS'' @ replicate 22 0 @ [1, 16, 3] @ bytes ''vorb''
           @ bytes ''LOOPSTART=7'' @ bytes ''RIFF'') = Return 7 0 None \<and>
   Read_latched (bytes ''OggS'' @ replicate 22 0 @ [1, 16, 3] @ bytes ''vorb''
           @ bytes ''LOOPSTART=7'' @ bytes ''RIFF'') = Return 7 0 None \<and>
   (7 :: int) = 7 \<and> (0 :: int) = 0"
proof -
  define payload where "payload = bytes ''LOOPSTART=7''"
  have len: "int (length payload) = 255 * int 0 + uint (16 :: byte) - 5"
    by (simp add: payload_def bytes_def)
  have m1: "FindSubmatch loopStartRe payload = [payload, bytes ''7'']"
    by (simp add: payload_def loopStartRe_def bytes_def is_digit_def Let_def)
  have m2: "FindSubmatch loopLengthRe payload = []"
    by (simp add: payload_def loopLengthRe_def bytes_def is_digit_def Let_def)
  have a: "Atoi (bytes ''7'') = Inr 7"
    by (simp add: Atoi_def bytes_def is_digit_def)
  have t1: "set_from_tag loopStartRe payload 0 = Ok 7"
    by (simp add: set_from_tag_def m1 a)
  have t2: "set_from_tag loopLengthRe payload 0 = Ok 0"
    by (simp add: set_from_tag_def m2)
  have tail: "4 \<le> length (bytes ''RIFF'')" "take 4 (bytes ''RIFF'') \<noteq> bytes ''OggS''"
    by (simp_all add: bytes_def)
  have "Read_loop 0 0
      (bytes ''OggS'' @ replicate 22 0 @ 1 # 16 # 3 # bytes ''vorb'' @ payload @ bytes ''RIFF'')
      = Return 7 0 None"
    using Read_loop_comment_page [of "replicate 22 0" 16 1 0 payload 0 0 "bytes ''RIFF''",
        OF _ _ _ len]
    by (simp add: t1 t2 Read_loop_foreign [OF tail])
  then have 1: "Read (bytes ''OggS'' @ replicate 22 0 @ [1, 16, 3] @ bytes ''vorb''
           @ bytes ''LOOPSTART=7'' @ bytes ''RIFF'') = Return 7 0 None"
    by (simp add: Read_def payload_def)
  have "Read_loop_l 0 0
      (fresh (bytes ''OggS'' @ replicate 22 0 @ 1 # 16 # 3 # bytes ''vorb'' @ payload
         @ bytes ''RIFF''))
      = Inr (7, 0, fresh (drop 4 (bytes ''RIFF'')))"
    using Read_loop_l_comment_page [of "replicate 22 0" 16 1 0 payload 0 0 "bytes ''RIFF''",
        OF _ _ _ len]
    by (simp add: set_from_tag_l_eq t1 t2 Read_loop_l_foreign [OF tail])
  then have 2: "Read_latched (bytes ''OggS'' @ replicate 22 0 @ [1, 16, 3] @ bytes ''vorb''
           @ bytes ''LOOPSTART=7'' @ bytes ''RIFF'') = Return 7 0 None"
    by (simp add: Read_latched_def fresh_def payload_def)
  from 1 2 C9_same_values_on_success [OF 1 2] show ?thesis
    by simp
qed

text \<open>
  Claim C10: when the digit run matched by a pattern is a run of zeros followed by the
  digits \<open>ds\<close>, the value stored is the base-10 value of \<open>ds\<close> (42 for \<open>0042\<close>), provided
  it fits a 64-bit \<open>int\<close>.  This holds for the assignment in both files.
\<close>

theorem C10_leading_zeros:
  assumes "FindSubmatch re meta = [whole, replicate k 0x30 @ ds]" and "dec ds < 2 ^ 63"
  shows "set_from_tag re meta old = Ok (int (dec ds)) \<and>
         set_from_tag_l re meta old = Inr (int (dec ds))"
proof -
  from FindSubmatch_cases [of re meta] assms(1)
  have "replicate k 0x30 @ ds \<noteq> []" and "list_all is_digit (replicate k 0x30 @ ds)"
    by auto
  then have "Atoi (replicate k 0x30 @ ds) = Inr (int (dec ds))"
    using assms(2) by (simp add: Atoi_digits dec_leading_zeros)
  with assms(1) show ?thesis
    by (simp add: set_from_tag_def set_from_tag_l_def mustAtoi_def)
qed

theorem C10_leading_zeros_witness:
  "FindSubmatch loopStartRe (bytes ''LOOPSTART=0042'') =
     [bytes ''LOOPSTART=0042'', replicate 2 0x30 @ bytes ''42''] \<and>
   dec (bytes ''42'') = 42 \<and>
   set_from_tag loopStartRe (bytes ''LOOPSTART=0042'') 0 = Ok 42 \<and>
   set_from_tag_l loopStartRe (bytes ''LOOPSTART=0042'') 0 = Inr 42"
proof -
  have r: "replicate 2 (0x30 :: byte) = [0x30, 0x30]"
    by (simp add: numeral_2_eq_2)
  have 1: "FindSubmatch loopStartRe (bytes ''LOOPSTART=0042'') =
      [bytes ''LOOPSTART=0042'', replicate 2 0x30 @ bytes ''42'']"
    unfolding r by (simp add: loopStartRe_def bytes_def is_digit_def Let_def)
  have 2: "dec (bytes ''42'') = 42"
    by (simp add: dec_def bytes_def)
  then have 3: "dec (bytes ''42'') < 2 ^ 63"
    by simp
  from 1 2 C10_leading_zeros [OF 1 3, of 0] show ?thesis
    by simp
qed

end
